theory Spec2Isabelle
  imports Main
begin

section \<open>Values shared by the whole development\<close>

text \<open>
  A Go string that holds valid UTF-8 is modelled by the sequence of its code points: this
  is what \<^verbatim>\<open>for i, c := range s\<close> iterates over and what \<^verbatim>\<open>WriteRune\<close> appends.
\<close>

type_synonym rune = nat
type_synonym gostring = "rune list"

text \<open>References to list elements (\<^verbatim>\<open>*ViolationListElementError\<close>); \<open>None\<close> is \<^verbatim>\<open>nil\<close>.\<close>

type_synonym ref = nat

datatype panic = NilPointerDereference | IndexOutOfRange | NegativeLength

text \<open>\<^verbatim>\<open>PropertyName\<close> and \<^verbatim>\<open>ArrayIndex\<close>, the two implementations of \<^verbatim>\<open>PropertyPathElement\<close>.\<close>

datatype PropertyPathElement = PropertyName gostring | ArrayIndex int

text \<open>
  \<^verbatim>\<open>type PropertyPath struct { parent *PropertyPath; value PropertyPathElement }\<close>.
  Nodes are immutable, so the chain is a value; a \<^verbatim>\<open>*PropertyPath\<close> is a
  \<open>PropertyPath option\<close>.
\<close>

datatype PropertyPath =
  PropertyPath (parent: "PropertyPath option") (val: "PropertyPathElement option")

text \<open>\<^verbatim>\<open>type ViolationListError struct { first, last *ViolationListElementError; len int }\<close>\<close>

record ViolationListError =
  first :: "ref option"
  lastElem :: "ref option"
  len :: int

text \<open>
  The dynamic types an \<^verbatim>\<open>error\<close> value has in this model:
  an error with no \<^verbatim>\<open>Unwrap\<close> method that is neither a violation nor a violation list
  (\<^verbatim>\<open>*Error\<close>, \<^verbatim>\<open>*ConstraintError\<close>, the parser's errors); an error with an
  \<^verbatim>\<open>Unwrap() error\<close> method (as \<^verbatim>\<open>fmt.Errorf("%w")\<close> builds); a \<^verbatim>\<open>Violation\<close>
  (\<^verbatim>\<open>*internalViolationError\<close>, whose \<^verbatim>\<open>Unwrap\<close> returns its \<^verbatim>\<open>err\<close> field); and a
  \<^verbatim>\<open>*ViolationListError\<close>, which may be a nil pointer inside a non-nil interface.
\<close>

datatype error =
    PlainError gostring
  | WrapError gostring "error option"
  | ViolationError Violation
  | ListError "ViolationListError option"
and Violation =
  InternalViolationError
    (err: "error option")
    (message: gostring)
    (messageTemplate: gostring)
    (parameters: "(gostring \<times> gostring) list")
    (propertyPath: "PropertyPath option")

section \<open>The violation list: a singly linked list in a store\<close>

text \<open>\<^verbatim>\<open>type ViolationListElementError struct { next *ViolationListElementError; violation Violation }\<close>\<close>

record ViolationListElementError =
  nextElem :: "ref option"
  violation :: Violation

text \<open>
  The store holds every list element ever allocated; \<open>fresh\<close> is the next unused
  reference, so that \<^verbatim>\<open>&ViolationListElementError{...}\<close> returns \<open>fresh\<close> and increments it.
\<close>

record store =
  cell :: "ref \<Rightarrow> ViolationListElementError"
  fresh :: ref

definition new_element :: "Violation \<Rightarrow> store \<Rightarrow> ref \<times> store" where
  "new_element v s =
     (fresh s, s\<lparr>cell := (cell s)(fresh s := \<lparr>nextElem = None, violation = v\<rparr>),
                 fresh := Suc (fresh s)\<rparr>)"

definition set_next :: "ref \<Rightarrow> ref option \<Rightarrow> store \<Rightarrow> store" where
  "set_next r n s = s\<lparr>cell := (cell s)(r := (cell s r)\<lparr>nextElem := n\<rparr>)\<rparr>"

definition empty_list :: ViolationListError where
  "empty_list = \<lparr>first = None, lastElem = None, len = 0\<rparr>"

definition Len :: "ViolationListError option \<Rightarrow> int" where
  "Len list = (case list of None \<Rightarrow> 0 | Some l \<Rightarrow> len l)"

text \<open>The loop of \<^verbatim>\<open>Append\<close>; \<^verbatim>\<open>list.last.next = element\<close> panics when \<^verbatim>\<open>list.last\<close> is nil.\<close>

fun Append_loop ::
  "ViolationListError \<Rightarrow> Violation list \<Rightarrow> store \<Rightarrow> panic + (ViolationListError \<times> store)" where
  "Append_loop l [] s = Inr (l, s)"
| "Append_loop l (v # vs) s =
     (case new_element v s of (element, s1) \<Rightarrow>
        if first l = None
        then Append_loop (l\<lparr>first := Some element, lastElem := Some element\<rparr>) vs s1
        else (case lastElem l of
                None \<Rightarrow> Inl NilPointerDereference
              | Some la \<Rightarrow>
                  Append_loop (l\<lparr>lastElem := Some element\<rparr>) vs (set_next la (Some element) s1)))"

definition Append ::
  "ViolationListError \<Rightarrow> Violation list \<Rightarrow> store \<Rightarrow> panic + (ViolationListError \<times> store)" where
  "Append l violations s =
     (case Append_loop l violations s of
        Inl p \<Rightarrow> Inl p
      | Inr (l', s') \<Rightarrow> Inr (l'\<lparr>len := len l' + int (length violations)\<rparr>, s'))"

definition Join ::
  "ViolationListError \<Rightarrow> ViolationListError option \<Rightarrow> store \<Rightarrow>
     panic + (ViolationListError \<times> store)" where
  "Join l violations s =
     (case violations of
        None \<Rightarrow> Inr (l, s)
      | Some m \<Rightarrow>
          if len m = 0 then Inr (l, s)
          else if first l = None
          then Inr (l\<lparr>first := first m, lastElem := lastElem m, len := len l + len m\<rparr>, s)
          else (case lastElem l of
                  None \<Rightarrow> Inl NilPointerDereference
                | Some la \<Rightarrow>
                    Inr (l\<lparr>lastElem := lastElem m, len := len l + len m\<rparr>,
                         set_next la (first m) s)))"

definition NewViolationList ::
  "Violation list \<Rightarrow> store \<Rightarrow> panic + (ViolationListError \<times> store)" where
  "NewViolationList violations s = Append empty_list violations s"

text \<open>
  \<^verbatim>\<open>AsSlice\<close> makes a slice of \<^verbatim>\<open>list.len\<close> nil entries and writes entry \<open>i\<close> for the
  \<open>i\<close>-th element it meets; writing past the end panics, so the loop always ends.
\<close>

function AsSlice_loop ::
  "store \<Rightarrow> ref option \<Rightarrow> nat \<Rightarrow> Violation option list \<Rightarrow> panic + Violation option list" where
  "AsSlice_loop s e i violations =
     (case e of
        None \<Rightarrow> Inr violations
      | Some r \<Rightarrow>
          if i < length violations
          then AsSlice_loop s (nextElem (cell s r)) (Suc i)
                 (violations[i := Some (violation (cell s r))])
          else Inl IndexOutOfRange)"
  by pat_completeness auto
termination
  by (relation "measure (\<lambda>(s, e, i, violations). length violations - i)") auto

definition AsSlice :: "ViolationListError \<Rightarrow> store \<Rightarrow> panic + Violation option list" where
  "AsSlice l s =
     (if len l < 0 then Inl NegativeLength
      else AsSlice_loop s (first l) 0 (replicate (nat (len l)) None))"

text \<open>
  \<^verbatim>\<open>ForEach\<close> follows \<^verbatim>\<open>next\<close> until nil and so need not return; not returning is
  \<open>None\<close>. The callback may have effects of its own, kept in a state of type \<open>'u\<close>.
\<close>

partial_function (option) ForEach_loop ::
  "store \<Rightarrow> (int \<Rightarrow> Violation \<Rightarrow> 'u \<Rightarrow> error option \<times> 'u) \<Rightarrow> int \<Rightarrow> ref option \<Rightarrow> 'u \<Rightarrow>
     (error option \<times> 'u) option" where
  "ForEach_loop s f i e u =
     (case e of
        None \<Rightarrow> Some (None, u)
      | Some r \<Rightarrow>
          (case f i (violation (cell s r)) u of
             (Some er, u') \<Rightarrow> Some (Some er, u')
           | (None, u') \<Rightarrow> ForEach_loop s f (i + 1) (nextElem (cell s r)) u'))"

definition ForEach ::
  "ViolationListError option \<Rightarrow> store \<Rightarrow> (int \<Rightarrow> Violation \<Rightarrow> 'u \<Rightarrow> error option \<times> 'u) \<Rightarrow> 'u \<Rightarrow>
     (error option \<times> 'u) option" where
  "ForEach list s f u =
     (case list of None \<Rightarrow> Some (None, u) | Some l \<Rightarrow> ForEach_loop s f 0 (first l) u)"

subsection \<open>Filter, errors.As and AppendFromError\<close>

text \<open>
  \<^verbatim>\<open>Violation\<close> is an interface and \<^verbatim>\<open>Filter\<close> calls its method \<^verbatim>\<open>Is\<close>. For the
  engine's own violations that method is \<^verbatim>\<open>errors.Is(v.err, target)\<close>, a walk of the
  standard library that consults the \<^verbatim>\<open>Is\<close> methods of whatever errors it meets; the
  model takes the method as the parameter \<open>is\<close>.
\<close>

fun Filter_errs ::
  "(Violation \<Rightarrow> error option \<Rightarrow> bool) \<Rightarrow> Violation \<Rightarrow> ViolationListError \<Rightarrow> error option list \<Rightarrow>
     store \<Rightarrow> panic + (ViolationListError \<times> store)" where
  "Filter_errs is v filtered [] s = Inr (filtered, s)"
| "Filter_errs is v filtered (e # errs) s =
     (if is v e
      then (case Append filtered [v] s of
              Inl p \<Rightarrow> Inl p
            | Inr (filtered', s') \<Rightarrow> Filter_errs is v filtered' errs s')
      else Filter_errs is v filtered errs s)"

partial_function (option) Filter_loop ::
  "(Violation \<Rightarrow> error option \<Rightarrow> bool) \<Rightarrow> ref option \<Rightarrow> error option list \<Rightarrow>
     ViolationListError \<Rightarrow> store \<Rightarrow> (panic + (ViolationListError \<times> store)) option" where
  "Filter_loop is e errs filtered s =
     (case e of
        None \<Rightarrow> Some (Inr (filtered, s))
      | Some r \<Rightarrow>
          (case Filter_errs is (violation (cell s r)) filtered errs s of
             Inl p \<Rightarrow> Some (Inl p)
           | Inr (filtered', s') \<Rightarrow> Filter_loop is (nextElem (cell s' r)) errs filtered' s'))"

definition Filter ::
  "(Violation \<Rightarrow> error option \<Rightarrow> bool) \<Rightarrow> ViolationListError \<Rightarrow> error option list \<Rightarrow> store \<Rightarrow>
     (panic + (ViolationListError \<times> store)) option" where
  "Filter is l errs s = Filter_loop is (first l) errs empty_list s"

definition AsError :: "ViolationListError option \<Rightarrow> error option" where
  "AsError list =
     (case list of
        None \<Rightarrow> None
      | Some l \<Rightarrow> if len l = 0 then None else Some (ListError (Some l)))"

text \<open>
  \<^verbatim>\<open>errors.As(err, &violation)\<close> with a target of interface type \<^verbatim>\<open>Violation\<close>: the first
  error of the \<^verbatim>\<open>Unwrap\<close> chain whose dynamic type implements \<^verbatim>\<open>Violation\<close>. The walk
  ends at an error without \<^verbatim>\<open>Unwrap\<close> method and when \<^verbatim>\<open>Unwrap\<close> returns nil.
\<close>

fun As_Violation :: "error \<Rightarrow> Violation option" where
  "As_Violation (PlainError m) = None"
| "As_Violation (WrapError m None) = None"
| "As_Violation (WrapError m (Some e)) = As_Violation e"
| "As_Violation (ViolationError v) = Some v"
| "As_Violation (ListError p) = None"

definition UnwrapViolation :: "error option \<Rightarrow> Violation option" where
  "UnwrapViolation e = (case e of None \<Rightarrow> None | Some e' \<Rightarrow> As_Violation e')"

text \<open>
  \<^verbatim>\<open>errors.As(err, &violations)\<close> with target type \<^verbatim>\<open>*ViolationListError\<close>; the result
  \<open>Some p\<close> is "found, with pointer \<open>p\<close>" (which may be nil), \<open>None\<close> is "not found".
\<close>

fun As_ViolationList :: "error \<Rightarrow> ViolationListError option option" where
  "As_ViolationList (PlainError m) = None"
| "As_ViolationList (WrapError m None) = None"
| "As_ViolationList (WrapError m (Some e)) = As_ViolationList e"
| "As_ViolationList (ViolationError (InternalViolationError None m t ps pp)) = None"
| "As_ViolationList (ViolationError (InternalViolationError (Some e) m t ps pp)) = As_ViolationList e"
| "As_ViolationList (ListError p) = Some p"

definition UnwrapViolationList :: "error option \<Rightarrow> ViolationListError option option" where
  "UnwrapViolationList e = (case e of None \<Rightarrow> None | Some e' \<Rightarrow> As_ViolationList e')"

definition AppendFromError ::
  "ViolationListError \<Rightarrow> error option \<Rightarrow> store \<Rightarrow>
     panic + (error option \<times> ViolationListError \<times> store)" where
  "AppendFromError l e s =
     (if e = None then Inr (None, l, s)
      else (case UnwrapViolation e of
              Some v \<Rightarrow>
                (case Append l [v] s of
                   Inl p \<Rightarrow> Inl p
                 | Inr (l', s') \<Rightarrow> Inr (None, l', s'))
            | None \<Rightarrow>
                (case UnwrapViolationList e of
                   Some violationList \<Rightarrow>
                     (case Join l violationList s of
                        Inl p \<Rightarrow> Inl p
                      | Inr (l', s') \<Rightarrow> Inr (None, l', s'))
                 | None \<Rightarrow> Inr (e, l, s))))"

subsection \<open>What a list in the store stands for\<close>

text \<open>
  \<open>seg s p rs q\<close>: following \<^verbatim>\<open>next\<close> from the pointer \<open>p\<close> visits exactly the elements
  \<open>rs\<close> and arrives at \<open>q\<close>; \<open>chain\<close> is a segment that ends at nil. A list value is
  \<open>well_formed\<close> with elements \<open>rs\<close> when \<^verbatim>\<open>first\<close> starts that chain, \<^verbatim>\<open>last\<close> is its
  final element, \<^verbatim>\<open>len\<close> is its length and all elements are allocated.
\<close>

primrec seg :: "store \<Rightarrow> ref option \<Rightarrow> ref list \<Rightarrow> ref option \<Rightarrow> bool" where
  "seg s p [] q = (p = q)"
| "seg s p (r # rs) q = (p = Some r \<and> seg s (nextElem (cell s r)) rs q)"

definition chain :: "store \<Rightarrow> ref option \<Rightarrow> ref list \<Rightarrow> bool" where
  "chain s p rs = seg s p rs None"

definition linked :: "store \<Rightarrow> ViolationListError \<Rightarrow> ref list \<Rightarrow> bool" where
  "linked s l rs =
     (chain s (first l) rs \<and> (rs \<noteq> [] \<longrightarrow> lastElem l = Some (last rs)) \<and> (\<forall>r \<in> set rs. r < fresh s))"

definition well_formed :: "store \<Rightarrow> ViolationListError \<Rightarrow> ref list \<Rightarrow> bool" where
  "well_formed s l rs = (linked s l rs \<and> len l = int (length rs))"

definition contents :: "store \<Rightarrow> ref list \<Rightarrow> Violation list" where
  "contents s rs = map (\<lambda>r. violation (cell s r)) rs"

primrec news :: "ref \<Rightarrow> nat \<Rightarrow> ref list" where
  "news a 0 = []"
| "news a (Suc n) = a # news (Suc a) n"

definition record_visit :: "int \<Rightarrow> Violation \<Rightarrow> (int \<times> Violation) list \<Rightarrow> error option \<times> (int \<times> Violation) list" where
  "record_visit i v log = (None, log @ [(i, v)])"

definition sample_violation :: "nat \<Rightarrow> Violation" where
  "sample_violation k = InternalViolationError None [k] [k] [] None"

definition sample_store :: store where
  "sample_store = \<lparr>cell = (\<lambda>r. \<lparr>nextElem = None, violation = sample_violation r\<rparr>), fresh = 1\<rparr>"

text \<open>
  For the examples: \<^verbatim>\<open>errors.Is(v.err, target)\<close> on a cause built from plain errors and
  wrappers, none of which has an \<^verbatim>\<open>Is\<close> method, so that \<^verbatim>\<open>==\<close> along the
  \<^verbatim>\<open>Unwrap\<close> chain decides; \<^verbatim>\<open>errors.Is\<close> with a nil argument compares the two.
\<close>

fun plain_Is :: "error \<Rightarrow> error \<Rightarrow> bool" where
  "plain_Is (WrapError m (Some e)) target = (WrapError m (Some e) = target \<or> plain_Is e target)"
| "plain_Is e target = (e = target)"

definition internalViolationError_Is :: "Violation \<Rightarrow> error option \<Rightarrow> bool" where
  "internalViolationError_Is v target =
     (case err v of
        None \<Rightarrow> target = None
      | Some e \<Rightarrow> (case target of None \<Rightarrow> False | Some t \<Rightarrow> plain_Is e t))"

definition coded_violation :: "error \<Rightarrow> Violation" where
  "coded_violation e = InternalViolationError (Some e) [] [] [] None"

definition two_element_store :: store where
  "two_element_store =
     \<lparr>cell = (\<lambda>r. \<lparr>nextElem = (if r = 0 then Some 1 else None),
                     violation = (if r = 0 then coded_violation (PlainError [97])
                                  else coded_violation (WrapError [119] (Some (PlainError [98]))))\<rparr>),
      fresh = 2\<rparr>"

definition two_element_list :: ViolationListError where
  "two_element_list = \<lparr>first = Some 0, lastElem = Some 1, len = 2\<rparr>"

section \<open>Property paths and their text form\<close>

text \<open>
  \<^verbatim>\<open>unicode.IsLetter\<close> and \<^verbatim>\<open>unicode.IsDigit\<close> belong to Go's standard library. On ASCII
  they accept \<^verbatim>\<open>A-Z a-z\<close> and \<^verbatim>\<open>0-9\<close>; beyond ASCII they consult Unicode tables, which are
  taken as the parameter \<open>u\<close>.
\<close>

record unicode_tables =
  letter :: "rune \<Rightarrow> bool"
  digit :: "rune \<Rightarrow> bool"

definition IsLetter :: "unicode_tables \<Rightarrow> rune \<Rightarrow> bool" where
  "IsLetter u c = (if c < 128 then (65 \<le> c \<and> c \<le> 90) \<or> (97 \<le> c \<and> c \<le> 122) else letter u c)"

definition IsDigit :: "unicode_tables \<Rightarrow> rune \<Rightarrow> bool" where
  "IsDigit u c = (if c < 128 then 48 \<le> c \<and> c \<le> 57 else digit u c)"

text \<open>The code points of an ASCII literal, and the width of a code point in UTF-8.\<close>

definition runes :: "string \<Rightarrow> gostring" where
  "runes cs = map of_char cs"

definition RuneLen :: "rune \<Rightarrow> int" where
  "RuneLen c = (if c < 128 then 1 else if c < 2048 then 2 else if c < 65536 then 3 else 4)"

text \<open>\<^verbatim>\<open>strconv.Itoa\<close>: the decimal digits, most significant first, after a minus sign if negative.\<close>

function digits :: "nat \<Rightarrow> gostring" where
  "digits n = (if n < 10 then [48 + n] else digits (n div 10) @ [48 + n mod 10])"
  by pat_completeness auto
termination
  by (relation "measure id") auto

definition Itoa :: "int \<Rightarrow> gostring" where
  "Itoa i = (if i < 0 then 45 # digits (nat (- i)) else digits (nat i))"

primrec IsIndex :: "PropertyPathElement \<Rightarrow> bool" where
  "IsIndex (PropertyName p) = False"
| "IsIndex (ArrayIndex a) = True"

primrec element_String :: "PropertyPathElement \<Rightarrow> gostring" where
  "element_String (PropertyName p) = p"
| "element_String (ArrayIndex a) = Itoa a"

definition With :: "PropertyPath option \<Rightarrow> PropertyPathElement list \<Rightarrow> PropertyPath option" where
  "With path elements = foldl (\<lambda>current element. Some (PropertyPath current (Some element))) path elements"

definition NewPropertyPath :: "PropertyPathElement list \<Rightarrow> PropertyPath option" where
  "NewPropertyPath elements = With None elements"

definition WithProperty :: "PropertyPath option \<Rightarrow> gostring \<Rightarrow> PropertyPath option" where
  "WithProperty path name = Some (PropertyPath path (Some (PropertyName name)))"

definition WithIndex :: "PropertyPath option \<Rightarrow> int \<Rightarrow> PropertyPath option" where
  "WithIndex path index = Some (PropertyPath path (Some (ArrayIndex index)))"

text \<open>
  \<^verbatim>\<open>Elements\<close> walks from the leaf to the root and fills a slice from its last entry down;
  \<open>values_to\<close> is the slice so filled. An entry is nil where a node has no value.
\<close>

fun values_to :: "PropertyPath \<Rightarrow> PropertyPathElement option list" where
  "values_to (PropertyPath None v) = [v]"
| "values_to (PropertyPath (Some p) v) = values_to p @ [v]"

definition Elements :: "PropertyPath option \<Rightarrow> PropertyPathElement option list" where
  "Elements path =
     (case path of
        None \<Rightarrow> []
      | Some p \<Rightarrow> if val p = None then [] else values_to p)"

definition isFirstIdentifierChar :: "unicode_tables \<Rightarrow> rune \<Rightarrow> bool" where
  "isFirstIdentifierChar u c = (IsLetter u c \<or> c = 36 \<or> c = 95)"

definition isIdentifierChar :: "unicode_tables \<Rightarrow> rune \<Rightarrow> bool" where
  "isIdentifierChar u c = (IsLetter u c \<or> IsDigit u c \<or> c = 36 \<or> c = 95)"

fun isIdentifier :: "unicode_tables \<Rightarrow> gostring \<Rightarrow> bool" where
  "isIdentifier u [] = False"
| "isIdentifier u (c # cs) = (isFirstIdentifierChar u c \<and> list_all (isIdentifierChar u) cs)"

fun writePropertyName :: "gostring \<Rightarrow> gostring" where
  "writePropertyName [] = []"
| "writePropertyName (c # cs) =
     (if c = 39 \<or> c = 92 then 92 # c # writePropertyName cs else c # writePropertyName cs)"

text \<open>
  The loop of \<^verbatim>\<open>String\<close> over the elements, with the builder's contents so far;
  \<^verbatim>\<open>element.String()\<close> on a nil element panics.
\<close>

fun String_loop ::
  "unicode_tables \<Rightarrow> nat \<Rightarrow> PropertyPathElement option list \<Rightarrow> gostring \<Rightarrow> panic + gostring" where
  "String_loop u i [] s = Inr s"
| "String_loop u i (None # elements) s = Inl NilPointerDereference"
| "String_loop u i (Some element # elements) s =
     (let name = element_String element in
      if IsIndex element then String_loop u (Suc i) elements (s @ [91] @ name @ [93])
      else if isIdentifier u name
      then String_loop u (Suc i) elements (s @ (if i > 0 then [46] else []) @ name)
      else String_loop u (Suc i) elements (s @ [91, 39] @ writePropertyName name @ [39, 93]))"

definition String :: "unicode_tables \<Rightarrow> PropertyPath option \<Rightarrow> panic + gostring" where
  "String u path = String_loop u 0 (Elements path) []"

subsection \<open>The parser\<close>

datatype parsingState =
    initialState
  | beginIdentifierState
  | identifierState
  | beginIndexState
  | indexState
  | bracketedNameState
  | endBracketedNameState
  | closeBracketState

record pathParser =
  path :: "PropertyPath option"
  buffer :: gostring
  index :: int
  pathIndex :: int
  state :: parsingState
  isEscape :: bool

text \<open>
  The parser's three error types, with their fields:
  \<^verbatim>\<open>pathParsingError{message, pathIndex}\<close>,
  \<^verbatim>\<open>pathParsingCharError{message, index, pathIndex, char}\<close> and
  \<^verbatim>\<open>pathParsingProcessingError{message, pathIndex}\<close>.
\<close>

datatype pathError =
    pathParsingError gostring int
  | pathParsingCharError gostring int int rune
  | pathParsingProcessingError gostring int

definition newError :: "pathParser \<Rightarrow> string \<Rightarrow> pathError" where
  "newError parser msg = pathParsingError (runes msg) (pathIndex parser)"

definition newCharError :: "pathParser \<Rightarrow> rune \<Rightarrow> string \<Rightarrow> pathError" where
  "newCharError parser c msg = pathParsingCharError (runes msg) (index parser) (pathIndex parser) c"

definition newProcessingError :: "pathParser \<Rightarrow> gostring \<Rightarrow> pathError" where
  "newProcessingError parser msg = pathParsingProcessingError msg (pathIndex parser)"

definition WriteRune :: "pathParser \<Rightarrow> rune \<Rightarrow> pathParser" where
  "WriteRune parser c = parser\<lparr>buffer := buffer parser @ [c]\<rparr>"

definition addProperty :: "pathParser \<Rightarrow> pathParser" where
  "addProperty parser =
     parser\<lparr>path := WithProperty (path parser) (buffer parser),
            pathIndex := pathIndex parser + 1,
            buffer := []\<rparr>"

text \<open>
  \<^verbatim>\<open>strconv.ParseUint(s, 10, 0)\<close> of the standard library, on a platform whose \<^verbatim>\<open>int\<close> has
  \<open>IntSize\<close> bits: the empty string and any character other than \<^verbatim>\<open>0-9\<close> are a syntax
  error, a value above \<open>2 ^ IntSize - 1\<close> is a range error, reported where it arises.
\<close>

definition IntSize :: nat where
  "IntSize = 64"

definition MaxUint :: nat where
  "MaxUint = 2 ^ IntSize - 1"

definition MaxInt :: nat where
  "MaxInt = 2 ^ (IntSize - 1) - 1"

datatype NumError = ErrSyntax | ErrRange

fun ParseUint_loop :: "nat \<Rightarrow> gostring \<Rightarrow> NumError + nat" where
  "ParseUint_loop n [] = Inr n"
| "ParseUint_loop n (c # cs) =
     (if \<not> (48 \<le> c \<and> c \<le> 57) then Inl ErrSyntax
      else if n \<ge> MaxUint div 10 + 1 then Inl ErrRange
      else if n * 10 + (c - 48) > MaxUint then Inl ErrRange
      else ParseUint_loop (n * 10 + (c - 48)) cs)"

definition ParseUint :: "gostring \<Rightarrow> NumError + nat" where
  "ParseUint s = (if s = [] then Inl ErrSyntax else ParseUint_loop 0 s)"

definition addIndex :: "pathParser \<Rightarrow> pathError + pathParser" where
  "addIndex parser =
     (let s = buffer parser in
      case ParseUint s of
        Inl ErrRange \<Rightarrow> Inl (newProcessingError parser (runes ''value out of range: '' @ s))
      | Inl ErrSyntax \<Rightarrow> Inl (newProcessingError parser (runes ''invalid array index: '' @ s))
      | Inr n \<Rightarrow>
          if n > MaxInt then Inl (newProcessingError parser (runes ''value out of range: '' @ s))
          else Inr (parser\<lparr>path := WithIndex (path parser) (int n),
                           pathIndex := pathIndex parser + 1,
                           buffer := []\<rparr>))"

definition handleOpenBracket :: "pathParser \<Rightarrow> rune \<Rightarrow> pathError + pathParser" where
  "handleOpenBracket parser c =
     (case state parser of
        beginIdentifierState \<Rightarrow> Inl (newCharError parser c ''unexpected char'')
      | beginIndexState \<Rightarrow> Inl (newCharError parser c ''unexpected char'')
      | indexState \<Rightarrow> Inl (newCharError parser c ''unexpected char'')
      | endBracketedNameState \<Rightarrow> Inl (newCharError parser c ''unexpected char'')
      | identifierState \<Rightarrow>
          Inr ((if buffer parser \<noteq> [] then addProperty parser else parser)\<lparr>state := beginIndexState\<rparr>)
      | initialState \<Rightarrow> Inr (parser\<lparr>state := beginIndexState\<rparr>)
      | closeBracketState \<Rightarrow> Inr (parser\<lparr>state := beginIndexState\<rparr>)
      | bracketedNameState \<Rightarrow> Inr (WriteRune parser c))"

definition handleCloseBracket :: "pathParser \<Rightarrow> rune \<Rightarrow> pathError + pathParser" where
  "handleCloseBracket parser c =
     (case state parser of
        indexState \<Rightarrow>
          (case addIndex parser of
             Inl e \<Rightarrow> Inl e
           | Inr parser' \<Rightarrow> Inr (parser'\<lparr>state := closeBracketState\<rparr>))
      | bracketedNameState \<Rightarrow> Inr (WriteRune parser c)
      | endBracketedNameState \<Rightarrow> Inr ((addProperty parser)\<lparr>state := closeBracketState\<rparr>)
      | _ \<Rightarrow> Inl (newCharError parser c ''unexpected close bracket''))"

definition handleDigit :: "pathParser \<Rightarrow> rune \<Rightarrow> pathError + pathParser" where
  "handleDigit parser c =
     (case state parser of
        beginIndexState \<Rightarrow> Inr (WriteRune (parser\<lparr>state := indexState\<rparr>) c)
      | indexState \<Rightarrow> Inr (WriteRune (parser\<lparr>state := indexState\<rparr>) c)
      | bracketedNameState \<Rightarrow> Inr (WriteRune parser c)
      | identifierState \<Rightarrow> Inr (WriteRune parser c)
      | initialState \<Rightarrow> Inl (newCharError parser c ''unexpected identifier character'')
      | beginIdentifierState \<Rightarrow> Inl (newCharError parser c ''unexpected identifier character'')
      | _ \<Rightarrow> Inl (newCharError parser c ''invalid array index''))"

definition handlePoint :: "pathParser \<Rightarrow> rune \<Rightarrow> pathError + pathParser" where
  "handlePoint parser c =
     (case state parser of
        beginIdentifierState \<Rightarrow>
          if buffer parser = [] then Inl (newCharError parser c ''unexpected point'')
          else Inr ((addProperty parser)\<lparr>state := beginIdentifierState\<rparr>)
      | identifierState \<Rightarrow>
          if buffer parser = [] then Inl (newCharError parser c ''unexpected point'')
          else Inr ((addProperty parser)\<lparr>state := beginIdentifierState\<rparr>)
      | bracketedNameState \<Rightarrow> Inr (WriteRune parser c)
      | closeBracketState \<Rightarrow> Inr (parser\<lparr>state := beginIdentifierState\<rparr>)
      | _ \<Rightarrow> Inl (newCharError parser c ''unexpected point''))"

definition handleQuote :: "pathParser \<Rightarrow> rune \<Rightarrow> pathError + pathParser" where
  "handleQuote parser c =
     (if isEscape parser then Inr ((WriteRune parser c)\<lparr>isEscape := False\<rparr>)
      else (case state parser of
              beginIndexState \<Rightarrow> Inr (parser\<lparr>state := bracketedNameState\<rparr>)
            | bracketedNameState \<Rightarrow> Inr (parser\<lparr>state := endBracketedNameState\<rparr>)
            | _ \<Rightarrow> Inl (newCharError parser c ''unexpected quote'')))"

definition handleEscape :: "pathParser \<Rightarrow> rune \<Rightarrow> pathError + pathParser" where
  "handleEscape parser c =
     (if state parser \<noteq> bracketedNameState then Inl (newCharError parser c ''unexpected backslash'')
      else if isEscape parser then Inr ((WriteRune parser c)\<lparr>isEscape := False\<rparr>)
      else Inr (parser\<lparr>isEscape := True\<rparr>))"

definition handleOther :: "unicode_tables \<Rightarrow> pathParser \<Rightarrow> rune \<Rightarrow> pathError + pathParser" where
  "handleOther u parser c =
     (case state parser of
        beginIndexState \<Rightarrow> Inl (newCharError parser c ''unexpected array index character'')
      | indexState \<Rightarrow> Inl (newCharError parser c ''unexpected array index character'')
      | initialState \<Rightarrow>
          if \<not> isFirstIdentifierChar u c then Inl (newCharError parser c ''unexpected identifier char'')
          else Inr (WriteRune (parser\<lparr>state := identifierState\<rparr>) c)
      | beginIdentifierState \<Rightarrow>
          if \<not> isFirstIdentifierChar u c then Inl (newCharError parser c ''unexpected identifier char'')
          else Inr (WriteRune (parser\<lparr>state := identifierState\<rparr>) c)
      | identifierState \<Rightarrow>
          if \<not> isFirstIdentifierChar u c then Inl (newCharError parser c ''unexpected identifier char'')
          else Inr (WriteRune (parser\<lparr>state := identifierState\<rparr>) c)
      | closeBracketState \<Rightarrow> Inl (newCharError parser c ''unexpected char'')
      | endBracketedNameState \<Rightarrow> Inl (newCharError parser c ''unexpected char'')
      | bracketedNameState \<Rightarrow> Inr (WriteRune parser c))"

definition handleNext :: "unicode_tables \<Rightarrow> pathParser \<Rightarrow> rune \<Rightarrow> pathError + pathParser" where
  "handleNext u parser c =
     (if c = 91 then handleOpenBracket parser c
      else if c = 93 then handleCloseBracket parser c
      else if 48 \<le> c \<and> c \<le> 57 then handleDigit parser c
      else if c = 39 then handleQuote parser c
      else if c = 92 then handleEscape parser c
      else if c = 46 then handlePoint parser c
      else handleOther u parser c)"

definition finish :: "pathParser \<Rightarrow> pathError + PropertyPath option" where
  "finish parser =
     (case state parser of
        beginIdentifierState \<Rightarrow>
          if buffer parser = [] then Inl (newError parser ''incomplete property name'')
          else Inr (WithProperty (path parser) (buffer parser))
      | identifierState \<Rightarrow>
          if buffer parser = [] then Inl (newError parser ''incomplete property name'')
          else Inr (WithProperty (path parser) (buffer parser))
      | beginIndexState \<Rightarrow> Inl (newError parser ''incomplete array index'')
      | indexState \<Rightarrow> Inl (newError parser ''incomplete array index'')
      | bracketedNameState \<Rightarrow> Inl (newError parser ''incomplete bracketed property name'')
      | endBracketedNameState \<Rightarrow> Inl (newError parser ''incomplete bracketed property name'')
      | closeBracketState \<Rightarrow> Inr (path parser)
      | initialState \<Rightarrow> Inl (newError parser ''unexpected parsing state''))"

text \<open>
  The loop of \<^verbatim>\<open>Parse\<close>: \<open>i\<close> is the byte offset of the next code point, stored in
  \<^verbatim>\<open>parser.index\<close> before it is handled.
\<close>

fun Parse_loop :: "unicode_tables \<Rightarrow> pathParser \<Rightarrow> int \<Rightarrow> gostring \<Rightarrow> pathError + PropertyPath option" where
  "Parse_loop u parser i [] = finish parser"
| "Parse_loop u parser i (c # cs) =
     (case handleNext u (parser\<lparr>index := i\<rparr>) c of
        Inl e \<Rightarrow> Inl e
      | Inr parser' \<Rightarrow> Parse_loop u parser' (i + RuneLen c) cs)"

definition new_pathParser :: pathParser where
  "new_pathParser =
     \<lparr>path = None, buffer = [], index = 0, pathIndex = 0, state = initialState, isEscape = False\<rparr>"

definition Parse :: "unicode_tables \<Rightarrow> gostring \<Rightarrow> pathError + PropertyPath option" where
  "Parse u encodedPath =
     (if encodedPath = [] then Inr (Some (PropertyPath None None))
      else Parse_loop u new_pathParser 0 encodedPath)"

text \<open>
  What the spec asks of the text between \<^verbatim>\<open>[\<close> and \<^verbatim>\<open>]\<close>: a non-empty string of the digits
  \<^verbatim>\<open>0-9\<close>, read as a decimal number.
\<close>

definition is_decimal :: "gostring \<Rightarrow> bool" where
  "is_decimal s = (s \<noteq> [] \<and> list_all (\<lambda>c. 48 \<le> c \<and> c \<le> 57) s)"

definition decimal_value :: "gostring \<Rightarrow> nat" where
  "decimal_value s = foldl (\<lambda>n c. n * 10 + (c - 48)) 0 s"

text \<open>
  Tables that know the ten Arabic-Indic digits U+0660 to U+0669 (category Nd, so digits and
  not letters, as in Unicode) and nothing else beyond ASCII.
\<close>

definition tables_with_arabic_indic_digits :: unicode_tables where
  "tables_with_arabic_indic_digits =
     \<lparr>letter = (\<lambda>c. False), digit = (\<lambda>c. 1632 \<le> c \<and> c \<le> 1641)\<rparr>"

section \<open>The validator and the combinators\<close>

text \<open>
  \<^verbatim>\<open>type Validator struct { propertyPath *PropertyPath; violationFactory ViolationFactory; groups []string }\<close>;
  the factory plays no part in what follows and is left out.
\<close>

record Validator =
  validator_propertyPath :: "PropertyPath option"
  validator_groups :: "gostring list"

definition DefaultGroup :: gostring where
  "DefaultGroup = runes ''default''"

definition At :: "Validator \<Rightarrow> PropertyPathElement list \<Rightarrow> Validator" where
  "At validator p = validator\<lparr>validator_propertyPath := With (validator_propertyPath validator) p\<rparr>"

definition WithGroups :: "Validator \<Rightarrow> gostring list \<Rightarrow> Validator" where
  "WithGroups validator gs = validator\<lparr>validator_groups := gs\<rparr>"

text \<open>The loop \<^verbatim>\<open>for _, g1 := range validator.groups\<close> of \<^verbatim>\<open>IsAppliedForGroups\<close>.\<close>

fun IsAppliedForGroups_loop :: "gostring list \<Rightarrow> gostring list \<Rightarrow> bool" where
  "IsAppliedForGroups_loop [] gs = False"
| "IsAppliedForGroups_loop (g1 # rest) gs =
     (if length gs = 0 \<and> g1 = DefaultGroup then True
      else if List.member gs g1 then True
      else IsAppliedForGroups_loop rest gs)"

definition IsAppliedForGroups :: "Validator \<Rightarrow> gostring list \<Rightarrow> bool" where
  "IsAppliedForGroups validator gs =
     (if length (validator_groups validator) = 0 \<and> length gs = 0 then True
      else if length (validator_groups validator) = 0 \<and> List.member gs DefaultGroup then True
      else IsAppliedForGroups_loop (validator_groups validator) gs)"

definition IsIgnoredForGroups :: "Validator \<Rightarrow> gostring list \<Rightarrow> bool" where
  "IsIgnoredForGroups validator gs = (\<not> IsAppliedForGroups validator gs)"

text \<open>
  A validation closure (\<^verbatim>\<open>ValidateFunc\<close>) receives the validator and may change the list
  elements in the store and a state \<open>'u\<close> of its own (a counter, say); it returns a list
  pointer and an error, or panics. The \<^verbatim>\<open>context.Context\<close> it also receives matters to
  \<^verbatim>\<open>Async\<close> only and is left out.
\<close>

type_synonym 'u state = "store \<times> 'u"

type_synonym 'u ValidateFunc =
  "Validator \<Rightarrow> 'u state \<Rightarrow> panic + ((ViolationListError option \<times> error option) \<times> 'u state)"

text \<open>
  Modelled from the spec: \<^verbatim>\<open>executionContext\<close> and its method \<^verbatim>\<open>addValidation\<close> are not among
  the sources. The spec describes the context as an ordered sequence of registered validation
  closures, each run with the argument's own path appended to the validator's path; the
  field \<^verbatim>\<open>validations\<close> is the one \<^verbatim>\<open>Validate\<close> reads.
\<close>

record 'u executionContext =
  validations :: "'u ValidateFunc list"

definition addValidation ::
  "'u executionContext \<Rightarrow> 'u ValidateFunc \<Rightarrow> PropertyPathElement list \<Rightarrow> 'u executionContext" where
  "addValidation ctx validate p =
     ctx\<lparr>validations := validations ctx @ [\<lambda>validator. validate (At validator p)]\<rparr>"

text \<open>
  \<^verbatim>\<open>Argument\<close> is an interface with the single method \<^verbatim>\<open>setUp(ctx *executionContext)\<close>, so an
  argument is what its \<^verbatim>\<open>setUp\<close> does to the context.
\<close>

type_synonym 'u Argument = "'u executionContext \<Rightarrow> 'u executionContext"

text \<open>\<^verbatim>\<open>ValidatorArgument{validate, path, isIgnored}.setUp\<close>, and \<^verbatim>\<open>NewArgument\<close>.\<close>

definition ValidatorArgument_setUp ::
  "'u ValidateFunc \<Rightarrow> PropertyPathElement list \<Rightarrow> bool \<Rightarrow> 'u Argument" where
  "ValidatorArgument_setUp validate p isIgnored ctx =
     (if \<not> isIgnored then addValidation ctx validate p else ctx)"

definition NewArgument :: "'u ValidateFunc \<Rightarrow> 'u Argument" where
  "NewArgument validate = ValidatorArgument_setUp validate [] False"

text \<open>The second loop of \<^verbatim>\<open>Validator.Validate\<close>, over the registered closures.\<close>

fun Validate_loop ::
  "Validator \<Rightarrow> 'u ValidateFunc list \<Rightarrow> ViolationListError \<Rightarrow> 'u state \<Rightarrow>
     panic + (error option \<times> 'u state)" where
  "Validate_loop validator [] violations st = Inr (AsError (Some violations), st)"
| "Validate_loop validator (validate # rest) violations st =
     (case validate validator st of
        Inl p \<Rightarrow> Inl p
      | Inr ((vs, e), st1) \<Rightarrow>
          if e \<noteq> None then Inr (e, st1)
          else (case Join violations vs (fst st1) of
                  Inl p \<Rightarrow> Inl p
                | Inr (violations', s2) \<Rightarrow> Validate_loop validator rest violations' (s2, snd st1)))"

definition Validate ::
  "Validator \<Rightarrow> 'u Argument list \<Rightarrow> 'u state \<Rightarrow> panic + (error option \<times> 'u state)" where
  "Validate validator arguments st =
     (let execContext = foldl (\<lambda>ctx argument. argument ctx) \<lparr>validations = []\<rparr> arguments
      in Validate_loop validator (validations execContext) empty_list st)"

definition unwrapViolationList ::
  "error option \<Rightarrow> 'u state \<Rightarrow> panic + ((ViolationListError option \<times> error option) \<times> 'u state)" where
  "unwrapViolationList e st =
     (case NewViolationList [] (fst st) of
        Inl p \<Rightarrow> Inl p
      | Inr (violations, s1) \<Rightarrow>
          (case AppendFromError violations e s1 of
             Inl p \<Rightarrow> Inl p
           | Inr (fatal, violations', s2) \<Rightarrow>
               if fatal \<noteq> None then Inr ((None, fatal), (s2, snd st))
               else Inr ((Some violations', None), (s2, snd st))))"

text \<open>\<^verbatim>\<open>WhenGroupsArgument{groups, path, thenArguments, elseArguments}\<close>: \<^verbatim>\<open>validate\<close> and \<^verbatim>\<open>setUp\<close>.\<close>

definition WhenGroupsArgument_validate ::
  "gostring list \<Rightarrow> 'u Argument list \<Rightarrow> 'u Argument list \<Rightarrow> 'u ValidateFunc" where
  "WhenGroupsArgument_validate gs thenArguments elseArguments validator st =
     (case (if IsIgnoredForGroups validator gs then Validate validator elseArguments st
            else Validate validator thenArguments st) of
        Inl p \<Rightarrow> Inl p
      | Inr (e, st1) \<Rightarrow> unwrapViolationList e st1)"

definition WhenGroupsArgument_setUp ::
  "gostring list \<Rightarrow> PropertyPathElement list \<Rightarrow> 'u Argument list \<Rightarrow> 'u Argument list \<Rightarrow> 'u Argument" where
  "WhenGroupsArgument_setUp gs p thenArguments elseArguments ctx =
     addValidation ctx (WhenGroupsArgument_validate gs thenArguments elseArguments) p"

text \<open>\<^verbatim>\<open>SequentialArgument{path, arguments, isIgnored}\<close>: the loop of \<^verbatim>\<open>validate\<close>, \<^verbatim>\<open>validate\<close>, \<^verbatim>\<open>setUp\<close>.\<close>

fun Sequential_loop ::
  "Validator \<Rightarrow> 'u Argument list \<Rightarrow> ViolationListError \<Rightarrow> 'u state \<Rightarrow>
     panic + ((ViolationListError option \<times> error option) \<times> 'u state)" where
  "Sequential_loop validator [] violations st = Inr ((Some violations, None), st)"
| "Sequential_loop validator (argument # rest) violations st =
     (case Validate validator [argument] st of
        Inl p \<Rightarrow> Inl p
      | Inr (e, st1) \<Rightarrow>
          (case AppendFromError violations e (fst st1) of
             Inl p \<Rightarrow> Inl p
           | Inr (fatal, violations', s2) \<Rightarrow>
               if fatal \<noteq> None then Inr ((None, fatal), (s2, snd st1))
               else if len violations' > 0 then Inr ((Some violations', None), (s2, snd st1))
               else Sequential_loop validator rest violations' (s2, snd st1)))"

definition SequentialArgument_validate :: "'u Argument list \<Rightarrow> bool \<Rightarrow> 'u ValidateFunc" where
  "SequentialArgument_validate arguments isIgnored validator st =
     (if isIgnored then Inr ((Some empty_list, None), st)
      else Sequential_loop validator arguments empty_list st)"

definition SequentialArgument_setUp ::
  "PropertyPathElement list \<Rightarrow> 'u Argument list \<Rightarrow> bool \<Rightarrow> 'u Argument" where
  "SequentialArgument_setUp p arguments isIgnored ctx =
     addValidation ctx (SequentialArgument_validate arguments isIgnored) p"

text \<open>\<^verbatim>\<open>AtLeastOneOfArgument{path, arguments, isIgnored}\<close>, in the same way.\<close>

fun AtLeastOneOf_loop ::
  "Validator \<Rightarrow> 'u Argument list \<Rightarrow> ViolationListError \<Rightarrow> 'u state \<Rightarrow>
     panic + ((ViolationListError option \<times> error option) \<times> 'u state)" where
  "AtLeastOneOf_loop validator [] violations st = Inr ((Some violations, None), st)"
| "AtLeastOneOf_loop validator (argument # rest) violations st =
     (case Validate validator [argument] st of
        Inl p \<Rightarrow> Inl p
      | Inr (e, st1) \<Rightarrow>
          if e = None then Inr ((Some empty_list, None), st1)
          else (case AppendFromError violations e (fst st1) of
                  Inl p \<Rightarrow> Inl p
                | Inr (fatal, violations', s2) \<Rightarrow>
                    if fatal \<noteq> None then Inr ((None, fatal), (s2, snd st1))
                    else AtLeastOneOf_loop validator rest violations' (s2, snd st1)))"

definition AtLeastOneOfArgument_validate :: "'u Argument list \<Rightarrow> bool \<Rightarrow> 'u ValidateFunc" where
  "AtLeastOneOfArgument_validate arguments isIgnored validator st =
     (if isIgnored then Inr ((Some empty_list, None), st)
      else AtLeastOneOf_loop validator arguments empty_list st)"

definition AtLeastOneOfArgument_setUp ::
  "PropertyPathElement list \<Rightarrow> 'u Argument list \<Rightarrow> bool \<Rightarrow> 'u Argument" where
  "AtLeastOneOfArgument_setUp p arguments isIgnored ctx =
     addValidation ctx (AtLeastOneOfArgument_validate arguments isIgnored) p"

text \<open>
  A run of \<^verbatim>\<open>AtLeastOneOf\<close> in which every sub-argument, validated in its turn, reports a
  list of at least one violation: \<open>all_fail v arguments acc rs st acc' rs' vss st'\<close> starts with
  the collected list \<open>acc\<close> (elements \<open>rs\<close>) in state \<open>st\<close> and ends with \<open>acc'\<close> (elements
  \<open>rs'\<close>) in state \<open>st'\<close>, \<open>vss\<close> being the violations of each sub-argument in turn. Each
  reported list is well formed, shares no element with what was collected before, and the
  sub-argument has left the collected elements as they were.
\<close>

inductive all_fail ::
  "Validator \<Rightarrow> 'u Argument list \<Rightarrow> ViolationListError \<Rightarrow> ref list \<Rightarrow> 'u state \<Rightarrow>
     ViolationListError \<Rightarrow> ref list \<Rightarrow> Violation list list \<Rightarrow> 'u state \<Rightarrow> bool" where
  all_fail_Nil: "all_fail v [] acc rs st acc rs [] st"
| all_fail_Cons:
  "Validate v [a] st = Inr (Some (ListError (Some m)), sta) \<Longrightarrow>
   well_formed (fst sta) m ms \<Longrightarrow> ms \<noteq> [] \<Longrightarrow> set ms \<inter> set rs = {} \<Longrightarrow>
   well_formed (fst sta) acc rs \<Longrightarrow> contents (fst sta) rs = contents (fst st) rs \<Longrightarrow>
   Join acc (Some m) (fst sta) = Inr (acca, sa) \<Longrightarrow>
   all_fail v rest acca (rs @ ms) (sa, snd sta) acc' rs' vss st' \<Longrightarrow>
   all_fail v (a # rest) acc rs st acc' rs' (contents (fst sta) ms # vss) st'"

text \<open>
  Closures for the examples, over a counter of executions: one reports the given violations in
  a new list, the other returns the given error.
\<close>

definition reports :: "Violation list \<Rightarrow> nat ValidateFunc" where
  "reports vs validator st =
     (case NewViolationList vs (fst st) of
        Inl p \<Rightarrow> Inl p
      | Inr (l, s1) \<Rightarrow> Inr ((Some l, None), (s1, Suc (snd st))))"

definition breaks :: "error \<Rightarrow> nat ValidateFunc" where
  "breaks e validator st = Inr ((None, Some e), (fst st, Suc (snd st)))"

definition admin_validator :: Validator where
  "admin_validator = \<lparr>validator_propertyPath = None, validator_groups = [runes ''admin'']\<rparr>"

definition plain_validator :: Validator where
  "plain_validator = \<lparr>validator_propertyPath = None, validator_groups = []\<rparr>"

section \<open>Auxiliary notions for the round trip of paths\<close>

text \<open>
  What \<^verbatim>\<open>String\<close> writes for one element: \<open>later\<close> says whether an element came before it.
\<close>

definition piece :: "unicode_tables \<Rightarrow> bool \<Rightarrow> PropertyPathElement \<Rightarrow> gostring" where
  "piece u later element =
     (let name = element_String element in
      if IsIndex element then [91] @ name @ [93]
      else if isIdentifier u name then (if later then [46] else []) @ name
      else [91, 39] @ writePropertyName name @ [39, 93])"

fun render :: "unicode_tables \<Rightarrow> bool \<Rightarrow> PropertyPathElement list \<Rightarrow> gostring" where
  "render u later [] = []"
| "render u later (element # elements) = piece u later element @ render u True elements"

text \<open>
  The elements the parser reads back: indices from 0 to \<open>MaxInt\<close>, and names of which every
  character after the first, when the name is an identifier, is a letter, \<^verbatim>\<open>$\<close>, \<^verbatim>\<open>_\<close> or
  one of the digits \<^verbatim>\<open>0-9\<close>.
\<close>

definition parsed_back :: "unicode_tables \<Rightarrow> PropertyPathElement \<Rightarrow> bool" where
  "parsed_back u element =
     (case element of
        ArrayIndex a \<Rightarrow> 0 \<le> a \<and> a \<le> int MaxInt
      | PropertyName name \<Rightarrow>
          isIdentifier u name \<longrightarrow>
            list_all (\<lambda>c. isFirstIdentifierChar u c \<or> (48 \<le> c \<and> c \<le> 57)) (tl name))"

text \<open>
  The parser's passage over a stretch of input: \<open>steps\<close> is the loop of \<^verbatim>\<open>Parse\<close> without
  the final \<^verbatim>\<open>finish\<close>, returning the parser and the byte offset reached.
\<close>

fun steps :: "unicode_tables \<Rightarrow> pathParser \<Rightarrow> int \<Rightarrow> gostring \<Rightarrow> pathError + (pathParser \<times> int)" where
  "steps u parser i [] = Inr (parser, i)"
| "steps u parser i (c # cs) =
     (case handleNext u (parser\<lparr>index := i\<rparr>) c of
        Inl e \<Rightarrow> Inl e
      | Inr parser' \<Rightarrow> steps u parser' (i + RuneLen c) cs)"

text \<open>
  The parser has read the text of the elements \<open>seen\<close> and stands between two elements: at
  the start, after a closing bracket, or at the end of an identifier still in its buffer.
\<close>

definition boundary :: "pathParser \<Rightarrow> PropertyPathElement list \<Rightarrow> bool" where
  "boundary parser seen =
     (\<not> isEscape parser \<and>
      (if seen = [] then state parser = initialState \<and> buffer parser = [] \<and> path parser = None
       else (state parser = closeBracketState \<and> buffer parser = [] \<and> path parser = With None seen) \<or>
            (state parser = identifierState \<and> buffer parser \<noteq> [] \<and>
             last seen = PropertyName (buffer parser) \<and> path parser = With None (butlast seen))))"

section \<open>Properties\<close>

subsection \<open>The violation list\<close>

declare AsSlice_loop.simps [simp del]

lemma chain_Nil [simp]: "chain s p [] = (p = None)"
  by (simp add: chain_def)

lemma chain_Cons [simp]: "chain s p (r # rs) = (p = Some r \<and> chain s (nextElem (cell s r)) rs)"
  by (simp add: chain_def)

lemma chain_None [simp]: "chain s None rs = (rs = [])"
  by (cases rs) auto

lemma chain_unique: "chain s p rs \<Longrightarrow> chain s p rs' \<Longrightarrow> rs = rs'"
proof (induction rs arbitrary: p rs')
  case Nil
  then show ?case by simp
next
  case (Cons r rs)
  then show ?case by (cases rs') auto
qed

lemma chain_append_split:
  "chain s p (as @ bs) \<Longrightarrow> \<exists>q. seg s p as q \<and> chain s q bs"
  by (induction as arbitrary: p) auto

lemma chain_head_notin_tail: "chain s (nextElem (cell s r)) rs \<Longrightarrow> r \<notin> set rs"
proof
  assume c: "chain s (nextElem (cell s r)) rs" and "r \<in> set rs"
  then obtain as bs where rs: "rs = as @ r # bs" by (auto simp: in_set_conv_decomp)
  with c obtain q where "chain s q (r # bs)" using chain_append_split by blast
  then have "chain s (nextElem (cell s r)) bs" by simp
  with c have "rs = bs" by (rule chain_unique)
  with rs show False by simp
qed

lemma chain_distinct: "chain s p rs \<Longrightarrow> distinct rs"
  by (induction rs arbitrary: p) (auto dest: chain_head_notin_tail)

lemma chain_cell_upd:
  "r \<notin> set rs \<Longrightarrow> chain (s\<lparr>cell := (cell s)(r := n)\<rparr>) p rs = chain s p rs"
  by (induction rs arbitrary: p) auto

lemma chain_fresh_upd [simp]: "chain (s\<lparr>fresh := k\<rparr>) p rs = chain s p rs"
  by (induction rs arbitrary: p) auto

lemma chain_set_next_last:
  "chain s p rs \<Longrightarrow> rs \<noteq> [] \<Longrightarrow> chain s q qs \<Longrightarrow> set rs \<inter> set qs = {} \<Longrightarrow>
   chain (set_next (last rs) q s) p (rs @ qs)"
proof (induction rs arbitrary: p)
  case Nil
  then show ?case by simp
next
  case (Cons r rs)
  show ?case
  proof (cases "rs = []")
    case True
    with Cons.prems show ?thesis
      by (auto simp: set_next_def chain_cell_upd)
  next
    case False
    from Cons.prems have d: "distinct (r # rs)" by (auto dest: chain_distinct simp del: chain_Cons)
    with False have ne: "r \<noteq> last rs" by auto
    from Cons.prems have c: "chain s (nextElem (cell s r)) rs" and p: "p = Some r" by auto
    have "chain (set_next (last rs) q s) (nextElem (cell s r)) (rs @ qs)"
      using Cons.IH [OF c False] Cons.prems by auto
    with ne p False show ?thesis by (simp add: set_next_def)
  qed
qed


lemma seg_cell_eq:
  "(\<And>r. r \<in> set rs \<Longrightarrow> cell s' r = cell s r) \<Longrightarrow> seg s' p rs q = seg s p rs q"
  by (induction rs arbitrary: p) auto

lemma chain_cell_eq:
  "(\<And>r. r \<in> set rs \<Longrightarrow> cell s' r = cell s r) \<Longrightarrow> chain s' p rs = chain s p rs"
  unfolding chain_def by (rule seg_cell_eq)

lemma violation_set_next [simp]: "violation (cell (set_next r n s) x) = violation (cell s x)"
  by (simp add: set_next_def)

lemma fresh_set_next [simp]: "fresh (set_next r n s) = fresh s"
  by (simp add: set_next_def)

lemma cell_set_next_other: "x \<noteq> r \<Longrightarrow> cell (set_next r n s) x = cell s x"
  by (simp add: set_next_def)

lemma contents_set_next [simp]: "contents (set_next r n s) rs = contents s rs"
  by (simp add: contents_def)

lemma contents_append [simp]: "contents s (as @ bs) = contents s as @ contents s bs"
  by (simp add: contents_def)

lemma contents_cell_eq:
  "(\<And>r. r \<in> set rs \<Longrightarrow> violation (cell s' r) = violation (cell s r)) \<Longrightarrow> contents s' rs = contents s rs"
  by (simp add: contents_def)

lemma length_contents [simp]: "length (contents s rs) = length rs"
  by (simp add: contents_def)

lemma set_news: "set (news a n) = {a..<a + n}"
  by (induction n arbitrary: a) auto

lemma length_news [simp]: "length (news a n) = n"
  by (induction n arbitrary: a) auto

lemma contents_Nil [simp]: "contents s [] = []"
  by (simp add: contents_def)

lemma Append_loop_linked:
  "linked s l rs \<Longrightarrow>
   \<exists>l' s'. Append_loop l vs s = Inr (l', s') \<and>
     linked s' l' (rs @ news (fresh s) (length vs)) \<and>
     fresh s' = fresh s + length vs \<and> len l' = len l \<and>
     contents s' (rs @ news (fresh s) (length vs)) = contents s rs @ vs \<and>
     (\<forall>r. r < fresh s \<longrightarrow> r \<notin> set rs \<longrightarrow> cell s' r = cell s r)"
proof (induction vs arbitrary: l s rs)
  case Nil
  then show ?case by simp
next
  case (Cons v vs)
  let ?e = "fresh s"
  let ?s1 = "s\<lparr>cell := (cell s)(?e := \<lparr>nextElem = None, violation = v\<rparr>), fresh := Suc ?e\<rparr>"
  have lt: "\<forall>r \<in> set rs. r < ?e" using Cons.prems by (simp add: linked_def)
  then have notin: "?e \<notin> set rs" by auto
  have ch: "chain s (first l) rs" using Cons.prems by (simp add: linked_def)
  have ch1: "chain ?s1 (first l) rs"
    using ch notin by (simp add: chain_cell_upd)
  show ?case
  proof (cases "rs = []")
    case True
    with ch have f: "first l = None" by simp
    let ?l1 = "l\<lparr>first := Some ?e, lastElem := Some ?e\<rparr>"
    have "linked ?s1 ?l1 [?e]" by (simp add: linked_def)
    from Cons.IH [OF this, of ] obtain l' s' where
      r: "Append_loop ?l1 vs ?s1 = Inr (l', s')"
         "linked s' l' ([?e] @ news (Suc ?e) (length vs))"
         "fresh s' = Suc ?e + length vs" "len l' = len ?l1"
         "contents s' ([?e] @ news (Suc ?e) (length vs)) = contents ?s1 [?e] @ vs"
         "\<forall>r. r < Suc ?e \<longrightarrow> r \<notin> set [?e] \<longrightarrow> cell s' r = cell ?s1 r"
      by auto
    have "Append_loop l (v # vs) s = Inr (l', s')"
      using r(1) f by (simp add: new_element_def)
    moreover have "\<forall>r. r < ?e \<longrightarrow> r \<notin> set rs \<longrightarrow> cell s' r = cell s r"
      using r(6) by auto
    moreover have "contents ?s1 [?e] = [v]" by (simp add: contents_def)
    ultimately show ?thesis using r(2-5) True by simp
  next
    case False
    with Cons.prems have la: "lastElem l = Some (last rs)" by (simp add: linked_def)
    from False ch have f: "first l \<noteq> None" by (cases rs) auto
    let ?l1 = "l\<lparr>lastElem := Some ?e\<rparr>"
    let ?s2 = "set_next (last rs) (Some ?e) ?s1"
    have "chain ?s1 (Some ?e) [?e]" by simp
    with ch1 False notin have "chain ?s2 (first l) (rs @ [?e])"
      by (intro chain_set_next_last) auto
    then have "linked ?s2 ?l1 (rs @ [?e])"
      using lt by (auto simp: linked_def less_Suc_eq)
    from Cons.IH [OF this] obtain l' s' where
      r: "Append_loop ?l1 vs ?s2 = Inr (l', s')"
         "linked s' l' ((rs @ [?e]) @ news (Suc ?e) (length vs))"
         "fresh s' = Suc ?e + length vs" "len l' = len ?l1"
         "contents s' ((rs @ [?e]) @ news (Suc ?e) (length vs)) = contents ?s2 (rs @ [?e]) @ vs"
         "\<forall>r. r < Suc ?e \<longrightarrow> r \<notin> set (rs @ [?e]) \<longrightarrow> cell s' r = cell ?s2 r"
      by auto
    have "Append_loop l (v # vs) s = Inr (l', s')"
      using r(1) f la by (auto simp: new_element_def)
    moreover have "\<forall>r. r < ?e \<longrightarrow> r \<notin> set rs \<longrightarrow> cell s' r = cell s r"
    proof (intro allI impI)
      fix r assume a: "r < ?e" "r \<notin> set rs"
      with False have "r \<noteq> last rs" by auto
      with a r(6) show "cell s' r = cell s r" by (simp add: set_next_def)
    qed
    moreover have "contents ?s2 (rs @ [?e]) = contents s rs @ [v]"
      using notin by (auto simp: contents_def)
    ultimately show ?thesis using r(2-5) by simp
  qed
qed



lemma Append_well_formed:
  assumes "well_formed s l rs"
  shows "\<exists>l' s'. Append l vs s = Inr (l', s') \<and>
     well_formed s' l' (rs @ news (fresh s) (length vs)) \<and>
     fresh s' = fresh s + length vs \<and>
     contents s' (rs @ news (fresh s) (length vs)) = contents s rs @ vs \<and>
     (\<forall>r. r < fresh s \<longrightarrow> r \<notin> set rs \<longrightarrow> cell s' r = cell s r)"
proof -
  from assms have "linked s l rs" and n: "len l = int (length rs)"
    by (simp_all add: well_formed_def)
  from Append_loop_linked [OF this(1), of vs] obtain l' s' where
    r: "Append_loop l vs s = Inr (l', s')"
       "linked s' l' (rs @ news (fresh s) (length vs))"
       "fresh s' = fresh s + length vs" "len l' = len l"
       "contents s' (rs @ news (fresh s) (length vs)) = contents s rs @ vs"
       "\<forall>r. r < fresh s \<longrightarrow> r \<notin> set rs \<longrightarrow> cell s' r = cell s r"
    by blast
  let ?l = "l'\<lparr>len := len l' + int (length vs)\<rparr>"
  have "Append l vs s = Inr (?l, s')" using r(1) by (simp add: Append_def)
  moreover have "well_formed s' ?l (rs @ news (fresh s) (length vs))"
    using r(2,4) n by (simp add: well_formed_def linked_def)
  ultimately show ?thesis using r(3,5,6) by blast
qed

lemma Join_well_formed:
  assumes l: "well_formed s l rs" and m: "well_formed s m ms" and d: "set rs \<inter> set ms = {}"
  shows "\<exists>l' s'. Join l (Some m) s = Inr (l', s') \<and> well_formed s' l' (rs @ ms) \<and>
     fresh s' = fresh s \<and> contents s' (rs @ ms) = contents s rs @ contents s ms"
proof (cases "ms = []")
  case True
  with m have "len m = 0" by (simp add: well_formed_def)
  with True l show ?thesis by (simp add: Join_def)
next
  case ms: False
  with m have lm: "len m \<noteq> 0" by (simp add: well_formed_def)
  have cm: "chain s (first m) ms" and lam: "lastElem m = Some (last ms)"
    using m ms by (simp_all add: well_formed_def linked_def)
  show ?thesis
  proof (cases "rs = []")
    case True
    with l have "first l = None" "len l = 0" by (simp_all add: well_formed_def linked_def)
    with True lm m show ?thesis
      by (simp add: Join_def well_formed_def linked_def)
  next
    case False
    with l have cl: "chain s (first l) rs" and la: "lastElem l = Some (last rs)"
      by (simp_all add: well_formed_def linked_def)
    from False cl have f: "first l \<noteq> None" by (cases rs) auto
    let ?s = "set_next (last rs) (first m) s"
    let ?l = "l\<lparr>lastElem := lastElem m, len := len l + len m\<rparr>"
    have j: "Join l (Some m) s = Inr (?l, ?s)"
      using lm f la by (auto simp: Join_def)
    have "chain ?s (first l) (rs @ ms)"
      using cl False cm d by (rule chain_set_next_last)
    then have "well_formed ?s ?l (rs @ ms)"
      using l m ms lam by (auto simp: well_formed_def linked_def)
    with j show ?thesis by simp
  qed
qed

lemma AsSlice_loop_chain:
  "chain s e rs \<Longrightarrow> i + length rs \<le> length acc \<Longrightarrow>
   AsSlice_loop s e i acc =
     Inr (take i acc @ map Some (contents s rs) @ drop (i + length rs) acc)"
proof (induction rs arbitrary: e i acc)
  case Nil
  then show ?case by (simp add: AsSlice_loop.simps)
next
  case (Cons r rs)
  from Cons.prems have e: "e = Some r" and c: "chain s (nextElem (cell s r)) rs"
    and i: "i < length acc" by auto
  let ?acc = "acc[i := Some (violation (cell s r))]"
  have "AsSlice_loop s e i acc = AsSlice_loop s (nextElem (cell s r)) (Suc i) ?acc"
    using e i by (subst AsSlice_loop.simps) simp
  also have "\<dots> = Inr (take (Suc i) ?acc @ map Some (contents s rs) @ drop (Suc i + length rs) ?acc)"
    using Cons.prems by (intro Cons.IH [OF c]) simp
  also have "take (Suc i) ?acc = take i acc @ [Some (violation (cell s r))]"
    using i by (simp add: take_Suc_conv_app_nth)
  also have "drop (Suc i + length rs) ?acc = drop (i + length (r # rs)) acc"
    by simp
  finally show ?case by (simp add: contents_def)
qed

lemma AsSlice_well_formed:
  assumes "well_formed s l rs"
  shows "AsSlice l s = Inr (map Some (contents s rs))"
proof -
  from assms have c: "chain s (first l) rs" and n: "len l = int (length rs)"
    by (simp_all add: well_formed_def linked_def)
  have "AsSlice_loop s (first l) 0 (replicate (length rs) None) =
      Inr (take 0 (replicate (length rs) None) @ map Some (contents s rs) @
           drop (0 + length rs) (replicate (length rs) None))"
    using c by (rule AsSlice_loop_chain) simp
  with n show ?thesis by (simp add: AsSlice_def)
qed

lemma ForEach_loop_chain:
  "chain s e rs \<Longrightarrow>
   ForEach_loop s record_visit (int n) e log =
     Some (None, log @ map (\<lambda>(k, v). (int k, v)) (enumerate n (contents s rs)))"
proof (induction rs arbitrary: e n log)
  case Nil
  then show ?case by (simp add: ForEach_loop.simps)
next
  case (Cons r rs)
  from Cons.prems have e: "e = Some r" and c: "chain s (nextElem (cell s r)) rs" by auto
  have "ForEach_loop s record_visit (int n) e log =
        ForEach_loop s record_visit (int (Suc n)) (nextElem (cell s r)) (log @ [(int n, violation (cell s r))])"
    using e by (subst ForEach_loop.simps) (simp add: record_visit_def add.commute)
  also note Cons.IH [OF c]
  finally show ?case by (simp add: contents_def)
qed


text \<open>
  Claim C9. Take a well-formed list \<open>l\<close>, \<^verbatim>\<open>Append\<close> the \<open>N\<close> violations \<open>vs\<close> to it and then
  \<^verbatim>\<open>Join\<close> a list \<open>m\<close> of \<open>M\<close> violations that shares no element with it (a distinct list).
  Neither call panics, \<^verbatim>\<open>Len\<close> is the number of violations \<open>l\<close> held before plus \<open>N + M\<close>
  (so it is \<open>N + M\<close> for a new list, which holds none), and both \<^verbatim>\<open>AsSlice\<close> and \<^verbatim>\<open>ForEach\<close> return, having visited the violations the
  list held before, then the appended ones in the order given, then those of \<open>m\<close> in their
  order; \<^verbatim>\<open>ForEach\<close> numbers them from 0.
\<close>

theorem Append_then_Join_order:
  assumes "well_formed s l rs"
    and "Append l vs s = Inr (l1, s1)"
    and "well_formed s1 m ms"
    and "set ms \<inter> (set rs \<union> {fresh s..<fresh s1}) = {}"
  shows "\<exists>l2 s2. Join l1 (Some m) s1 = Inr (l2, s2) \<and>
      Len (Some l2) = int (length rs) + int (length vs) + int (length ms) \<and>
      AsSlice l2 s2 = Inr (map Some (contents s rs @ vs @ contents s1 ms)) \<and>
      ForEach (Some l2) s2 record_visit [] =
        Some (None, map (\<lambda>(k, v). (int k, v)) (enumerate 0 (contents s rs @ vs @ contents s1 ms)))"
proof -
  let ?rs1 = "rs @ news (fresh s) (length vs)"
  from Append_well_formed [OF assms(1), of vs] assms(2)
  have l1: "well_formed s1 l1 ?rs1" and f1: "fresh s1 = fresh s + length vs"
    and c1: "contents s1 ?rs1 = contents s rs @ vs"
    by auto
  have "set ?rs1 \<inter> set ms = {}"
    using assms(4) f1 by (auto simp: set_news)
  from Join_well_formed [OF l1 assms(3) this] obtain l2 s2 where
    j: "Join l1 (Some m) s1 = Inr (l2, s2)" and w: "well_formed s2 l2 (?rs1 @ ms)"
    and c2: "contents s2 (?rs1 @ ms) = contents s1 ?rs1 @ contents s1 ms"
    by blast
  have c: "contents s2 (?rs1 @ ms) = contents s rs @ vs @ contents s1 ms"
    using c1 c2 by simp
  have n: "Len (Some l2) = int (length rs) + int (length vs) + int (length ms)"
    using w by (simp add: Len_def well_formed_def)
  have a: "AsSlice l2 s2 = Inr (map Some (contents s rs @ vs @ contents s1 ms))"
    using AsSlice_well_formed [OF w] c by simp
  have "chain s2 (first l2) (?rs1 @ ms)" using w by (simp add: well_formed_def linked_def)
  from ForEach_loop_chain [OF this, of 0 "[]"] c
  have "ForEach (Some l2) s2 record_visit [] =
        Some (None, map (\<lambda>(k, v). (int k, v)) (enumerate 0 (contents s rs @ vs @ contents s1 ms)))"
    by (simp add: ForEach_def)
  with j n a show ?thesis by blast
qed

theorem Append_then_Join_order_witness:
  "well_formed sample_store empty_list [] \<and>
   (\<exists>l1 s1. Append empty_list [sample_violation 7, sample_violation 8] sample_store = Inr (l1, s1) \<and>
      well_formed s1 \<lparr>first = Some 0, lastElem = Some 0, len = 1\<rparr> [0] \<and>
      {0} \<inter> ({} \<union> {fresh sample_store..<fresh s1}) = {} \<and>
      (\<exists>l2 s2. Join l1 (Some \<lparr>first = Some 0, lastElem = Some 0, len = 1\<rparr>) s1 = Inr (l2, s2) \<and>
         Len (Some l2) = 2 + 1 \<and>
         AsSlice l2 s2 = Inr [Some (sample_violation 7), Some (sample_violation 8), Some (sample_violation 0)] \<and>
         ForEach (Some l2) s2 record_visit [] =
           Some (None, [(0, sample_violation 7), (1, sample_violation 8), (2, sample_violation 0)])))"
proof -
  let ?m = "\<lparr>first = Some 0, lastElem = Some 0, len = 1\<rparr>"
  let ?vs = "[sample_violation 7, sample_violation 8]"
  obtain l1 s1 where a: "Append empty_list ?vs sample_store = Inr (l1, s1)"
    and l1: "l1 = \<lparr>first = Some 1, lastElem = Some 2, len = 2\<rparr>"
    and s1: "fresh s1 = 3" "cell s1 0 = cell sample_store 0"
    by (simp add: Append_def new_element_def set_next_def empty_list_def sample_store_def)
  have h1: "well_formed sample_store empty_list []"
    by (simp add: well_formed_def linked_def empty_list_def chain_def)
  have h3: "well_formed s1 ?m [0]"
    using s1 by (simp add: well_formed_def linked_def chain_def sample_store_def)
  have h4: "set [0] \<inter> (set [] \<union> {fresh sample_store..<fresh s1}) = {}"
    using s1 by (simp add: sample_store_def)
  have c: "contents s1 [0] = [sample_violation 0]"
    using s1 by (simp add: contents_def sample_store_def)
  from Append_then_Join_order [OF h1 a h3 h4] c h1 a h3 h4
  show ?thesis by (simp add: Len_def empty_list_def enumerate_eq_zip)
qed

lemma news_snoc: "news a (Suc k) = news a k @ [a + k]"
  by (induction k arbitrary: a) auto

lemma Filter_errs_well_formed:
  "well_formed s f frs \<Longrightarrow>
   \<exists>f' s'. Filter_errs is v f errs s = Inr (f', s') \<and>
     well_formed s' f' (frs @ news (fresh s) (length (filter (is v) errs))) \<and>
     fresh s' = fresh s + length (filter (is v) errs) \<and>
     contents s' (frs @ news (fresh s) (length (filter (is v) errs))) =
       contents s frs @ concat (map (\<lambda>k. if is v k then [v] else []) errs) \<and>
     (\<forall>r. r < fresh s \<longrightarrow> r \<notin> set frs \<longrightarrow> cell s' r = cell s r)"
proof (induction errs arbitrary: f s frs)
  case Nil
  then show ?case by simp
next
  case (Cons e errs)
  show ?case
  proof (cases "is v e")
    case False
    with Cons.IH [OF Cons.prems] show ?thesis by simp
  next
    case True
    from Append_well_formed [OF Cons.prems, of "[v]"] obtain f1 s1 where
      a: "Append f [v] s = Inr (f1, s1)" "well_formed s1 f1 (frs @ [fresh s])"
         "fresh s1 = Suc (fresh s)" "contents s1 (frs @ [fresh s]) = contents s frs @ [v]"
         "\<forall>r. r < fresh s \<longrightarrow> r \<notin> set frs \<longrightarrow> cell s1 r = cell s r"
      by auto
    let ?k = "length (filter (is v) errs)"
    from Cons.IH [OF a(2), of ] obtain f' s' where
      r: "Filter_errs is v f1 errs s1 = Inr (f', s')"
         "well_formed s' f' ((frs @ [fresh s]) @ news (fresh s1) ?k)"
         "fresh s' = fresh s1 + ?k"
         "contents s' ((frs @ [fresh s]) @ news (fresh s1) ?k) =
            contents s1 (frs @ [fresh s]) @ concat (map (\<lambda>k. if is v k then [v] else []) errs)"
         "\<forall>r. r < fresh s1 \<longrightarrow> r \<notin> set (frs @ [fresh s]) \<longrightarrow> cell s' r = cell s1 r"
      by blast
    have "Filter_errs is v f (e # errs) s = Inr (f', s')"
      using True a(1) r(1) by simp
    moreover have "\<forall>r. r < fresh s \<longrightarrow> r \<notin> set frs \<longrightarrow> cell s' r = cell s r"
      using a(3,5) r(5) by auto
    ultimately show ?thesis using True a(3,4) r(2,3,4) by simp
  qed
qed

lemma contents_Cons [simp]: "contents s (r # rs) = violation (cell s r) # contents s rs"
  by (simp add: contents_def)

lemma Filter_loop_chain:
  "chain s e rs \<Longrightarrow> well_formed s f frs \<Longrightarrow> set rs \<inter> set frs = {} \<Longrightarrow>
   \<forall>r \<in> set rs. r < fresh s \<Longrightarrow>
   \<exists>f' s' frs'. Filter_loop is e errs f s = Some (Inr (f', s')) \<and>
     well_formed s' f' (frs @ frs') \<and> set frs' \<subseteq> {fresh s..<fresh s'} \<and> fresh s \<le> fresh s' \<and>
     contents s' (frs @ frs') =
       contents s frs @ [v. v \<leftarrow> contents s rs, k \<leftarrow> errs, is v k] \<and>
     (\<forall>r. r < fresh s \<longrightarrow> r \<notin> set frs \<longrightarrow> cell s' r = cell s r)"
proof (induction rs arbitrary: e s f frs)
  case Nil
  then have "Filter_loop is e errs f s = Some (Inr (f, s))"
    by (subst Filter_loop.simps) simp
  with Nil show ?case by (intro exI [of _ f] exI [of _ s] exI [of _ "[]"]) simp
next
  case (Cons r rs)
  let ?v = "violation (cell s r)"
  let ?k = "length (filter (is ?v) errs)"
  from Cons.prems have e: "e = Some r" and c: "chain s (nextElem (cell s r)) rs"
    and rn: "r \<notin> set frs" and rl: "r < fresh s" by auto
  from Filter_errs_well_formed [OF Cons.prems(2), of "is" ?v errs] obtain f1 s1 where
    a: "Filter_errs is ?v f errs s = Inr (f1, s1)"
       "well_formed s1 f1 (frs @ news (fresh s) ?k)"
       "fresh s1 = fresh s + ?k"
       "contents s1 (frs @ news (fresh s) ?k) =
          contents s frs @ concat (map (\<lambda>k. if is ?v k then [?v] else []) errs)"
       "\<forall>r. r < fresh s \<longrightarrow> r \<notin> set frs \<longrightarrow> cell s1 r = cell s r"
    by blast
  have same: "\<And>x. x \<in> set (r # rs) \<Longrightarrow> cell s1 x = cell s x"
    using a(5) Cons.prems(3,4) by auto
  have c1: "chain s1 (nextElem (cell s1 r)) rs"
    using c same by (simp add: chain_cell_eq [of rs s1 s])
  have d1: "set rs \<inter> set (frs @ news (fresh s) ?k) = {}"
    using Cons.prems(3,4) by (auto simp: set_news)
  have b1: "\<forall>x \<in> set rs. x < fresh s1" using Cons.prems(4) a(3) by auto
  from Cons.IH [OF c1 a(2) d1 b1] obtain f' s' frs' where
    r: "Filter_loop is (nextElem (cell s1 r)) errs f1 s1 = Some (Inr (f', s'))"
       "well_formed s' f' ((frs @ news (fresh s) ?k) @ frs')"
       "set frs' \<subseteq> {fresh s1..<fresh s'}" "fresh s1 \<le> fresh s'"
       "contents s' ((frs @ news (fresh s) ?k) @ frs') =
          contents s1 (frs @ news (fresh s) ?k) @ [v. v \<leftarrow> contents s1 rs, k \<leftarrow> errs, is v k]"
       "\<forall>r. r < fresh s1 \<longrightarrow> r \<notin> set (frs @ news (fresh s) ?k) \<longrightarrow> cell s' r = cell s1 r"
    by blast
  have run: "Filter_loop is e errs f s = Some (Inr (f', s'))"
    using e a(1) r(1) by (subst Filter_loop.simps) simp
  have cs: "contents s1 rs = contents s rs"
    using same by (simp add: contents_def)
  have "set (news (fresh s) ?k @ frs') \<subseteq> {fresh s..<fresh s'}"
    using r(3,4) a(3) by (auto simp: set_news)
  moreover have "\<forall>x. x < fresh s \<longrightarrow> x \<notin> set frs \<longrightarrow> cell s' x = cell s x"
    using a(3,5) r(6) by (auto simp: set_news)
  moreover have "contents s' (frs @ news (fresh s) ?k @ frs') =
      contents s frs @ [v. v \<leftarrow> contents s (r # rs), k \<leftarrow> errs, is v k]"
  proof -
    have "contents s' (frs @ news (fresh s) ?k @ frs') =
        contents s1 (frs @ news (fresh s) ?k) @ [v. v \<leftarrow> contents s1 rs, k \<leftarrow> errs, is v k]"
      using r(5) by simp
    also have "\<dots> = (contents s frs @ concat (map (\<lambda>k. if is ?v k then [?v] else []) errs)) @
        [v. v \<leftarrow> contents s rs, k \<leftarrow> errs, is v k]"
      unfolding a(4) cs ..
    finally show ?thesis by simp
  qed
  moreover have "fresh s \<le> fresh s'" using a(3) r(4) by simp
  ultimately show ?case
    using run r(2) by (intro exI [of _ f'] exI [of _ s'] exI [of _ "news (fresh s) ?k @ frs'"]) simp
qed

lemma well_formed_later:
  "well_formed s l rs \<Longrightarrow> fresh s \<le> fresh s' \<Longrightarrow> (\<And>r. r \<in> set rs \<Longrightarrow> cell s' r = cell s r) \<Longrightarrow>
   well_formed s' l rs"
  unfolding well_formed_def linked_def
  by (auto simp: chain_cell_eq [of rs s' s])

text \<open>
  Claim C10. On a well-formed list, \<^verbatim>\<open>Filter(errs...)\<close> returns without panic a list built
  from newly allocated elements only, which holds, in the receiver's order, each violation
  once for every entry of \<open>errs\<close> that its \<^verbatim>\<open>Is\<close> method accepts (so twice when two
  entries match, and nothing when \<open>errs\<close> is empty). Every element allocated before the
  call is unchanged, hence so is the receiver.
\<close>

theorem Filter_copies_per_kind:
  assumes "well_formed s l rs"
  shows "\<exists>f s' frs. Filter is l errs s = Some (Inr (f, s')) \<and>
      well_formed s' f frs \<and> set frs \<subseteq> {fresh s..<fresh s'} \<and>
      contents s' frs = [v. v \<leftarrow> contents s rs, k \<leftarrow> errs, is v k] \<and>
      well_formed s' l rs \<and> contents s' rs = contents s rs \<and>
      (\<forall>r < fresh s. cell s' r = cell s r)"
proof -
  have c: "chain s (first l) rs" and b: "\<forall>r \<in> set rs. r < fresh s"
    using assms by (simp_all add: well_formed_def linked_def)
  have e: "well_formed s empty_list []"
    by (simp add: well_formed_def linked_def empty_list_def)
  from Filter_loop_chain [OF c e _ b, of "is" errs] obtain f s' frs where
    r: "Filter_loop is (first l) errs empty_list s = Some (Inr (f, s'))"
       "well_formed s' f ([] @ frs)" "set frs \<subseteq> {fresh s..<fresh s'}" "fresh s \<le> fresh s'"
       "contents s' ([] @ frs) = contents s [] @ [v. v \<leftarrow> contents s rs, k \<leftarrow> errs, is v k]"
       "\<forall>r. r < fresh s \<longrightarrow> r \<notin> set [] \<longrightarrow> cell s' r = cell s r"
    by auto
  have same: "\<forall>r < fresh s. cell s' r = cell s r" using r(6) by simp
  then have "well_formed s' l rs"
    using assms r(4) b by (intro well_formed_later [of s l rs s']) auto
  moreover have "contents s' rs = contents s rs"
    using same b by (simp add: contents_def)
  moreover have "Filter is l errs s = Some (Inr (f, s'))"
    using r(1) by (simp add: Filter_def)
  ultimately show ?thesis using r(2,3,5) same by auto
qed

theorem Filter_copies_per_kind_witness:
  "well_formed two_element_store two_element_list [0, 1] \<and>
   (\<exists>f s' frs.
      Filter internalViolationError_Is two_element_list
        [Some (PlainError [98]), Some (PlainError [99]), Some (WrapError [119] (Some (PlainError [98])))]
        two_element_store = Some (Inr (f, s')) \<and>
      well_formed s' f frs \<and>
      contents s' frs =
        [coded_violation (WrapError [119] (Some (PlainError [98]))),
         coded_violation (WrapError [119] (Some (PlainError [98])))] \<and>
      contents s' [0, 1] =
        [coded_violation (PlainError [97]), coded_violation (WrapError [119] (Some (PlainError [98])))] \<and>
      (\<forall>r < 2. cell s' r = cell two_element_store r))"
proof -
  have h: "well_formed two_element_store two_element_list [0, 1]"
    by (simp add: well_formed_def linked_def two_element_store_def two_element_list_def)
  have c: "contents two_element_store [0, 1] =
      [coded_violation (PlainError [97]), coded_violation (WrapError [119] (Some (PlainError [98])))]"
    by (simp add: two_element_store_def)
  have f: "fresh two_element_store = 2" by (simp add: two_element_store_def)
  from Filter_copies_per_kind [OF h, of internalViolationError_Is
      "[Some (PlainError [98]), Some (PlainError [99]), Some (WrapError [119] (Some (PlainError [98])))]"]
  show ?thesis
    unfolding c f using h
    by (simp add: internalViolationError_Is_def coded_violation_def) blast
qed

lemma Join_no_panic:
  assumes "first l \<noteq> None \<Longrightarrow> lastElem l \<noteq> None"
  shows "\<exists>l' s'. Join l p s = Inr (l', s') \<and> (p = None \<longrightarrow> l' = l \<and> s' = s)"
proof (cases p)
  case None
  then show ?thesis by (simp add: Join_def)
next
  case (Some m)
  show ?thesis
  proof (cases "first l = None")
    case True
    with Some show ?thesis by (simp add: Join_def)
  next
    case False
    with assms obtain la where "lastElem l = Some la" by auto
    with Some False show ?thesis by (simp add: Join_def)
  qed
qed

text \<open>
  Claim C1. On a well-formed list \<^verbatim>\<open>AppendFromError\<close> never panics and: a nil error leaves
  list and store as they are and returns nil; an error whose \<^verbatim>\<open>Unwrap\<close> chain holds a
  \<^verbatim>\<open>Violation\<close> has that violation appended and returns nil; an error without one whose
  chain holds a \<^verbatim>\<open>*ViolationListError\<close> has that list joined (a no-op for a nil pointer,
  the concatenation for a well-formed list sharing no element) and returns nil; every
  other error is returned itself, with list and store as they were.
\<close>

theorem AppendFromError_classifies:
  assumes "well_formed s l rs"
  shows "AppendFromError l None s = Inr (None, l, s) \<and>
    (UnwrapViolation (Some e) = Some v \<longrightarrow>
       (\<exists>l' s'. AppendFromError l (Some e) s = Inr (None, l', s') \<and>
          Append l [v] s = Inr (l', s') \<and>
          well_formed s' l' (rs @ [fresh s]) \<and>
          contents s' (rs @ [fresh s]) = contents s rs @ [v])) \<and>
    (UnwrapViolation (Some e) = None \<and> UnwrapViolationList (Some e) = Some p \<longrightarrow>
       (\<exists>l' s'. AppendFromError l (Some e) s = Inr (None, l', s') \<and>
          Join l p s = Inr (l', s') \<and>
          (p = None \<longrightarrow> l' = l \<and> s' = s) \<and>
          (p = Some m \<and> well_formed s m ms \<and> set rs \<inter> set ms = {} \<longrightarrow>
             well_formed s' l' (rs @ ms) \<and>
             contents s' (rs @ ms) = contents s rs @ contents s ms))) \<and>
    (UnwrapViolation (Some e) = None \<and> UnwrapViolationList (Some e) = None \<longrightarrow>
       AppendFromError l (Some e) s = Inr (Some e, l, s))"
proof (intro conjI impI)
  show "AppendFromError l None s = Inr (None, l, s)"
    by (simp add: AppendFromError_def)
next
  assume u: "UnwrapViolation (Some e) = Some v"
  from Append_well_formed [OF assms, of "[v]"] obtain l' s' where
    a: "Append l [v] s = Inr (l', s')" "well_formed s' l' (rs @ [fresh s])"
       "contents s' (rs @ [fresh s]) = contents s rs @ [v]"
    by auto
  with u have "AppendFromError l (Some e) s = Inr (None, l', s')"
    by (simp add: AppendFromError_def)
  with a show "\<exists>l' s'. AppendFromError l (Some e) s = Inr (None, l', s') \<and>
          Append l [v] s = Inr (l', s') \<and>
          well_formed s' l' (rs @ [fresh s]) \<and>
          contents s' (rs @ [fresh s]) = contents s rs @ [v]"
    by blast
next
  assume u: "UnwrapViolation (Some e) = None \<and> UnwrapViolationList (Some e) = Some p"
  have la: "first l \<noteq> None \<Longrightarrow> lastElem l \<noteq> None"
    using assms by (cases rs) (auto simp: well_formed_def linked_def)
  show "\<exists>l' s'. AppendFromError l (Some e) s = Inr (None, l', s') \<and>
          Join l p s = Inr (l', s') \<and>
          (p = None \<longrightarrow> l' = l \<and> s' = s) \<and>
          (p = Some m \<and> well_formed s m ms \<and> set rs \<inter> set ms = {} \<longrightarrow>
             well_formed s' l' (rs @ ms) \<and>
             contents s' (rs @ ms) = contents s rs @ contents s ms)"
  proof (cases "p = Some m \<and> well_formed s m ms \<and> set rs \<inter> set ms = {}")
    case True
    from Join_well_formed [OF assms, of m ms] True obtain l' s' where
      j: "Join l p s = Inr (l', s')" "well_formed s' l' (rs @ ms)"
         "contents s' (rs @ ms) = contents s rs @ contents s ms"
      by auto
    with u have "AppendFromError l (Some e) s = Inr (None, l', s')"
      by (simp add: AppendFromError_def)
    with j True show ?thesis by auto
  next
    case False
    from Join_no_panic [OF la, of p s] obtain l' s' where
      j: "Join l p s = Inr (l', s')" and n: "p = None \<longrightarrow> l' = l \<and> s' = s"
      by blast
    with u have "AppendFromError l (Some e) s = Inr (None, l', s')"
      by (simp add: AppendFromError_def)
    with j n False show ?thesis by auto
  qed
next
  assume "UnwrapViolation (Some e) = None \<and> UnwrapViolationList (Some e) = None"
  then show "AppendFromError l (Some e) s = Inr (Some e, l, s)"
    by (simp add: AppendFromError_def)
qed

theorem AppendFromError_classifies_witness:
  "well_formed sample_store empty_list [] \<and>
   AppendFromError empty_list None sample_store = Inr (None, empty_list, sample_store) \<and>
   UnwrapViolation (Some (WrapError [119] (Some (ViolationError (sample_violation 5))))) =
     Some (sample_violation 5) \<and>
   (\<exists>l' s'. AppendFromError empty_list
        (Some (WrapError [119] (Some (ViolationError (sample_violation 5))))) sample_store =
        Inr (None, l', s') \<and>
      well_formed s' l' [1] \<and> contents s' [1] = [sample_violation 5]) \<and>
   UnwrapViolation (Some (ListError (Some \<lparr>first = Some 0, lastElem = Some 0, len = 1\<rparr>))) = None \<and>
   UnwrapViolationList (Some (ListError (Some \<lparr>first = Some 0, lastElem = Some 0, len = 1\<rparr>))) =
     Some (Some \<lparr>first = Some 0, lastElem = Some 0, len = 1\<rparr>) \<and>
   well_formed sample_store \<lparr>first = Some 0, lastElem = Some 0, len = 1\<rparr> [0] \<and>
   (\<exists>l' s'. AppendFromError empty_list
        (Some (ListError (Some \<lparr>first = Some 0, lastElem = Some 0, len = 1\<rparr>))) sample_store =
        Inr (None, l', s') \<and>
      well_formed s' l' [0] \<and> contents s' [0] = [sample_violation 0]) \<and>
   UnwrapViolation (Some (PlainError [98])) = None \<and>
   UnwrapViolationList (Some (PlainError [98])) = None \<and>
   AppendFromError empty_list (Some (PlainError [98])) sample_store =
     Inr (Some (PlainError [98]), empty_list, sample_store)"
proof -
  let ?m = "\<lparr>first = Some 0, lastElem = Some 0, len = 1\<rparr>"
  let ?w = "WrapError [119] (Some (ViolationError (sample_violation 5)))"
  have h: "well_formed sample_store empty_list []"
    by (simp add: well_formed_def linked_def empty_list_def)
  have m: "well_formed sample_store ?m [0]"
    by (simp add: well_formed_def linked_def sample_store_def)
  have f: "fresh sample_store = 1" by (simp add: sample_store_def)
  have c: "contents sample_store [0] = [sample_violation 0]"
    by (simp add: contents_def sample_store_def)
  have u: "UnwrapViolation (Some ?w) = Some (sample_violation 5)"
    "UnwrapViolation (Some (ListError (Some ?m))) = None"
    "UnwrapViolationList (Some (ListError (Some ?m))) = Some (Some ?m)"
    "UnwrapViolation (Some (PlainError [98])) = None"
    "UnwrapViolationList (Some (PlainError [98])) = None"
    by (simp_all add: UnwrapViolation_def UnwrapViolationList_def)
  from AppendFromError_classifies [OF h, of ?w "sample_violation 5"] u(1) f
  have a: "\<exists>l' s'. AppendFromError empty_list (Some ?w) sample_store = Inr (None, l', s') \<and>
      well_formed s' l' [1] \<and> contents s' [1] = [sample_violation 5]"
    by auto
  from AppendFromError_classifies [OF h, of "ListError (Some ?m)" _ "Some ?m" ?m "[0]"] u(2,3) m c
  have b: "\<exists>l' s'. AppendFromError empty_list (Some (ListError (Some ?m))) sample_store =
        Inr (None, l', s') \<and>
      well_formed s' l' [0] \<and> contents s' [0] = [sample_violation 0]"
    by auto
  from AppendFromError_classifies [OF h, of "PlainError [98]"] u(4,5)
  have d: "AppendFromError empty_list None sample_store = Inr (None, empty_list, sample_store)"
    "AppendFromError empty_list (Some (PlainError [98])) sample_store =
       Inr (Some (PlainError [98]), empty_list, sample_store)"
    by auto
  from h m u a b d show ?thesis by simp
qed

subsection \<open>The path parser\<close>

lemmas parser_defs =
  Parse_def new_pathParser_def handleNext_def handleOpenBracket_def handleCloseBracket_def
  handleDigit_def handlePoint_def handleQuote_def handleEscape_def handleOther_def finish_def
  addProperty_def addIndex_def WriteRune_def newError_def newCharError_def newProcessingError_def
  WithProperty_def WithIndex_def RuneLen_def isFirstIdentifierChar_def isIdentifierChar_def
  IsLetter_def IsDigit_def ParseUint_def

lemma runes_simps [simp]: "runes [] = []" "runes (c # cs) = of_char c # runes cs"
  by (simp_all add: runes_def)

text \<open>
  Claim C7. Whatever the Unicode tables, \<^verbatim>\<open>a[\<close> and \<^verbatim>\<open>a['b\<close> are rejected with a
  \<^verbatim>\<open>pathParsingError\<close> whose path index is 1, the index of the segment left incomplete, and
  \<^verbatim>\<open>a.b[3]['c\'d']\<close> is accepted as the elements \<^verbatim>\<open>a\<close>, \<^verbatim>\<open>b\<close>, 3, \<^verbatim>\<open>c'd\<close>, which
  \<^verbatim>\<open>String\<close> renders as the input again.
\<close>

theorem Parse_unterminated_and_quoted:
  "Parse u (runes ''a['') = Inl (pathParsingError (runes ''incomplete array index'') 1) \<and>
   Parse u (runes ''a['' @ [39] @ runes ''b'') =
     Inl (pathParsingError (runes ''incomplete bracketed property name'') 1) \<and>
   (\<exists>p. Parse u (runes ''a.b[3]['' @ [39] @ runes ''c'' @ [92, 39] @ runes ''d'' @ [39] @ runes '']'') = Inr p \<and>
      Elements p =
        [Some (PropertyName (runes ''a'')), Some (PropertyName (runes ''b'')), Some (ArrayIndex 3),
         Some (PropertyName (runes ''c'' @ [39] @ runes ''d''))] \<and>
      String u p =
        Inr (runes ''a.b[3]['' @ [39] @ runes ''c'' @ [92, 39] @ runes ''d'' @ [39] @ runes '']''))"
  by (simp add: String_def Elements_def Itoa_def parser_defs MaxUint_def MaxInt_def IntSize_def)

lemma foldl_decimal_ge: "(n::nat) \<le> foldl (\<lambda>n c. n * 10 + (c - 48)) n cs"
proof (induction cs arbitrary: n)
  case Nil
  show ?case by simp
next
  case (Cons c cs)
  have "n \<le> n * 10 + (c - 48)" by simp
  also have "\<dots> \<le> foldl (\<lambda>n c. n * 10 + (c - 48)) (n * 10 + (c - 48)) cs" by (rule Cons.IH)
  finally show ?case by simp
qed

lemma ParseUint_loop_digits:
  "list_all (\<lambda>c. 48 \<le> c \<and> c \<le> 57) cs \<Longrightarrow> n \<le> MaxUint \<Longrightarrow>
   ParseUint_loop n cs =
     (if foldl (\<lambda>n c. n * 10 + (c - 48)) n cs \<le> MaxUint
      then Inr (foldl (\<lambda>n c. n * 10 + (c - 48)) n cs) else Inl ErrRange)"
proof (induction cs arbitrary: n)
  case Nil
  then show ?case by simp
next
  case (Cons c cs)
  let ?m = "n * 10 + (c - 48)"
  let ?r = "foldl (\<lambda>n c. n * 10 + (c - 48)) ?m cs"
  from Cons.prems have d: "48 \<le> c \<and> c \<le> 57" and ds: "list_all (\<lambda>c. 48 \<le> c \<and> c \<le> 57) cs"
    by simp_all
  have ge: "?m \<le> ?r" by (rule foldl_decimal_ge)
  show ?case
  proof (cases "n \<ge> MaxUint div 10 + 1 \<or> ?m > MaxUint")
    case True
    then have "?m > MaxUint" by (auto simp: MaxUint_def IntSize_def)
    with ge have "\<not> ?r \<le> MaxUint" by simp
    with True d show ?thesis by auto
  next
    case False
    then have "?m \<le> MaxUint" by simp
    from False d Cons.IH [OF ds this] show ?thesis by auto
  qed
qed

lemma ParseUint_loop_not_digits:
  "\<not> list_all (\<lambda>c. 48 \<le> c \<and> c \<le> 57) cs \<Longrightarrow> \<exists>e. ParseUint_loop n cs = Inl e"
  by (induction cs arbitrary: n) auto

lemma ParseUint_decimal:
  "ParseUint s = Inr n \<longleftrightarrow> is_decimal s \<and> decimal_value s \<le> MaxUint \<and> n = decimal_value s"
proof (cases "is_decimal s")
  case True
  then show ?thesis
    by (auto simp: ParseUint_def is_decimal_def decimal_value_def ParseUint_loop_digits)
next
  case False
  then have "s = [] \<or> (\<exists>e. ParseUint_loop 0 s = Inl e)"
    using ParseUint_loop_not_digits [of s 0] by (auto simp: is_decimal_def)
  with False show ?thesis by (auto simp: ParseUint_def)
qed

lemma MaxInt_le_MaxUint: "MaxInt \<le> MaxUint"
  by (simp add: MaxInt_def MaxUint_def IntSize_def)

lemma addIndex_decimal:
  "addIndex parser =
     (if is_decimal (buffer parser) \<and> decimal_value (buffer parser) \<le> MaxInt
      then Inr (parser\<lparr>path := WithIndex (path parser) (int (decimal_value (buffer parser))),
                       pathIndex := pathIndex parser + 1, buffer := []\<rparr>)
      else Inl (pathParsingProcessingError
                  ((if ParseUint (buffer parser) = Inl ErrSyntax
                    then runes ''invalid array index: '' else runes ''value out of range: '') @ buffer parser)
                  (pathIndex parser)))"
proof (cases "ParseUint (buffer parser)")
  case (Inl e)
  then have "\<not> (is_decimal (buffer parser) \<and> decimal_value (buffer parser) \<le> MaxInt)"
    using ParseUint_decimal [of "buffer parser" "decimal_value (buffer parser)"] MaxInt_le_MaxUint
    by auto
  with Inl show ?thesis
    by (cases e) (simp_all add: addIndex_def newProcessingError_def)
next
  case (Inr n)
  then have "is_decimal (buffer parser)" "n = decimal_value (buffer parser)"
    using ParseUint_decimal [of "buffer parser" n] by simp_all
  with Inr show ?thesis
    by (simp add: addIndex_def newProcessingError_def)
qed

text \<open>
  Claim C8. When \<^verbatim>\<open>]\<close> arrives in the index state: if the buffer is a non-empty string of
  digits whose value is at most \<open>MaxInt\<close>, that value is appended to the path as an
  \<^verbatim>\<open>ArrayIndex\<close> and parsing goes on after the bracket; otherwise the whole parse fails
  with a \<^verbatim>\<open>pathParsingProcessingError\<close> that carries the index of the segment.
\<close>

theorem close_bracket_index:
  assumes "state parser = indexState"
  shows "(is_decimal (buffer parser) \<and> decimal_value (buffer parser) \<le> MaxInt \<longrightarrow>
      handleCloseBracket parser 93 =
        Inr (parser\<lparr>path := WithIndex (path parser) (int (decimal_value (buffer parser))),
                    pathIndex := pathIndex parser + 1, buffer := [],
                    state := closeBracketState\<rparr>) \<and>
      Parse_loop u parser i (93 # rest) =
        Parse_loop u
          (parser\<lparr>index := i,
                  path := WithIndex (path parser) (int (decimal_value (buffer parser))),
                  pathIndex := pathIndex parser + 1, buffer := [],
                  state := closeBracketState\<rparr>) (i + 1) rest) \<and>
    (\<not> (is_decimal (buffer parser) \<and> decimal_value (buffer parser) \<le> MaxInt) \<longrightarrow>
      (\<exists>msg. handleCloseBracket parser 93 =
           Inl (pathParsingProcessingError (msg @ buffer parser) (pathIndex parser)) \<and>
         Parse_loop u parser i (93 # rest) =
           Inl (pathParsingProcessingError (msg @ buffer parser) (pathIndex parser)) \<and>
         (msg = runes ''invalid array index: '' \<or> msg = runes ''value out of range: '')))"
  using assms
  by (auto simp: handleCloseBracket_def handleNext_def addIndex_decimal RuneLen_def)

theorem close_bracket_index_witness:
  "state (new_pathParser\<lparr>state := indexState, buffer := runes ''12''\<rparr>) = indexState \<and>
   is_decimal (runes ''12'') \<and> decimal_value (runes ''12'') \<le> MaxInt \<and>
   Parse_loop tables_with_arabic_indic_digits (new_pathParser\<lparr>state := indexState, buffer := runes ''12''\<rparr>) 3 [93] =
     Inr (Some (PropertyPath None (Some (ArrayIndex 12)))) \<and>
   state (new_pathParser\<lparr>state := indexState, buffer := runes ''9223372036854775808''\<rparr>) = indexState \<and>
   \<not> (is_decimal (runes ''9223372036854775808'') \<and> decimal_value (runes ''9223372036854775808'') \<le> MaxInt) \<and>
   (\<exists>msg. Parse_loop tables_with_arabic_indic_digits (new_pathParser\<lparr>state := indexState, buffer := runes ''9223372036854775808''\<rparr>) 20 [93] =
      Inl (pathParsingProcessingError (msg @ runes ''9223372036854775808'') 0))"
proof -
  let ?p = "new_pathParser\<lparr>state := indexState, buffer := runes ''12''\<rparr>"
  let ?q = "new_pathParser\<lparr>state := indexState, buffer := runes ''9223372036854775808''\<rparr>"
  have s: "state ?p = indexState" "state ?q = indexState" by simp_all
  have d: "is_decimal (runes ''12'') \<and> decimal_value (runes ''12'') \<le> MaxInt"
    "\<not> (is_decimal (runes ''9223372036854775808'') \<and>
        decimal_value (runes ''9223372036854775808'') \<le> MaxInt)"
    by (simp_all add: is_decimal_def decimal_value_def MaxInt_def IntSize_def)
  have v: "decimal_value (runes ''12'') = 12" by (simp add: decimal_value_def)
  from close_bracket_index [OF s(1), of tables_with_arabic_indic_digits 3 "[]"] d(1) v
  have a: "Parse_loop tables_with_arabic_indic_digits ?p 3 [93] = Inr (Some (PropertyPath None (Some (ArrayIndex 12))))"
    by (simp add: finish_def WithIndex_def new_pathParser_def)
  from close_bracket_index [OF s(2), of tables_with_arabic_indic_digits 20 "[]"] d(2)
  have b: "\<exists>msg. Parse_loop tables_with_arabic_indic_digits ?q 20 [93] =
      Inl (pathParsingProcessingError (msg @ runes ''9223372036854775808'') 0)"
    by (auto simp: new_pathParser_def)
  from s d a b show ?thesis by simp
qed

text \<open>
  Claim C2 fails on the code. The property name made of \<^verbatim>\<open>a\<close> and the digit U+0663 is an
  identifier for \<^verbatim>\<open>isIdentifier\<close>, so \<^verbatim>\<open>String\<close> renders it bare; the parser hands the digit
  to \<^verbatim>\<open>handleOther\<close>, which in the identifier state still asks for a first identifier
  character and rejects it.
\<close>

theorem identifier_with_unicode_digit_not_parsed:
  "String tables_with_arabic_indic_digits (NewPropertyPath [PropertyName [97, 1635]]) = Inr [97, 1635] \<and>
   Parse tables_with_arabic_indic_digits [97, 1635] =
     Inl (pathParsingCharError (runes ''unexpected identifier char'') 1 0 1635)"
  by (simp add: String_def NewPropertyPath_def With_def Elements_def parser_defs
      tables_with_arabic_indic_digits_def)

subsection \<open>The validator and the combinators\<close>

lemma IsAppliedForGroups_loop_iff:
  "IsAppliedForGroups_loop V G \<longleftrightarrow> (G = [] \<and> DefaultGroup \<in> set V) \<or> set V \<inter> set G \<noteq> {}"
  by (induction V) auto

lemma Join_empty_list:
  "len m \<noteq> 0 \<Longrightarrow> Join empty_list (Some m) s = Inr (m, s)"
  by (simp add: Join_def empty_list_def)

lemma Sequential_loop_continue:
  "Sequential_loop v pre acc st = Inr ((Some l, None), st1) \<Longrightarrow> len l \<le> 0 \<Longrightarrow>
   Sequential_loop v (pre @ rest) acc st = Sequential_loop v rest l st1"
proof (induction pre arbitrary: acc st)
  case Nil
  then show ?case by simp
next
  case (Cons a pre)
  from Cons.prems(1) obtain e st2 where v: "Validate v [a] st = Inr (e, st2)"
    by (auto split: sum.splits)
  with Cons.prems(1) obtain fatal acc2 s3 where
    a: "AppendFromError acc e (fst st2) = Inr (fatal, acc2, s3)"
    by (auto split: sum.splits)
  from Cons.prems v a have f: "fatal = None" and n: "\<not> len acc2 > 0"
    and r: "Sequential_loop v pre acc2 (s3, snd st2) = Inr ((Some l, None), st1)"
    by (auto split: if_splits)
  from Cons.IH [OF r Cons.prems(2)] v a f n show ?case by simp
qed

text \<open>
  Claim C3. \<^verbatim>\<open>IsAppliedForGroups\<close> holds exactly when the validator has no groups and the
  caller's list is empty or contains the default group, or the validator has groups and one
  of them is in the caller's list or the caller's list is empty and the default group is among
  the validator's. Hence \<^verbatim>\<open>WhenGroups("admin").Then(X).Else(Y)\<close> does what validating \<open>X\<close>
  alone does under a validator whose groups are \<^verbatim>\<open>admin\<close>, and what validating \<open>Y\<close> alone
  does under a validator without groups: result and final state do not depend on the other
  branch.
\<close>

theorem groups_select_branch:
  "(IsAppliedForGroups v G \<longleftrightarrow>
      (validator_groups v = [] \<and> (G = [] \<or> DefaultGroup \<in> set G)) \<or>
      (validator_groups v \<noteq> [] \<and>
         (set (validator_groups v) \<inter> set G \<noteq> {} \<or> (G = [] \<and> DefaultGroup \<in> set (validator_groups v))))) \<and>
   (validator_groups v = [runes ''admin''] \<longrightarrow>
      WhenGroupsArgument_validate [runes ''admin''] X Y v st =
        (case Validate v X st of Inl p \<Rightarrow> Inl p | Inr (e, st1) \<Rightarrow> unwrapViolationList e st1)) \<and>
   (validator_groups v = [] \<longrightarrow>
      WhenGroupsArgument_validate [runes ''admin''] X Y v st =
        (case Validate v Y st of Inl p \<Rightarrow> Inl p | Inr (e, st1) \<Rightarrow> unwrapViolationList e st1))"
proof (intro conjI impI)
  show "IsAppliedForGroups v G \<longleftrightarrow>
      (validator_groups v = [] \<and> (G = [] \<or> DefaultGroup \<in> set G)) \<or>
      (validator_groups v \<noteq> [] \<and>
         (set (validator_groups v) \<inter> set G \<noteq> {} \<or> (G = [] \<and> DefaultGroup \<in> set (validator_groups v))))"
    by (cases "validator_groups v = []")
      (auto simp: IsAppliedForGroups_def IsAppliedForGroups_loop_iff)
next
  assume "validator_groups v = [runes ''admin'']"
  then have "\<not> IsIgnoredForGroups v [runes ''admin'']"
    by (simp add: IsIgnoredForGroups_def IsAppliedForGroups_def)
  then show "WhenGroupsArgument_validate [runes ''admin''] X Y v st =
        (case Validate v X st of Inl p \<Rightarrow> Inl p | Inr (e, st1) \<Rightarrow> unwrapViolationList e st1)"
    by (simp add: WhenGroupsArgument_validate_def)
next
  assume "validator_groups v = []"
  then have "IsIgnoredForGroups v [runes ''admin'']"
    by (simp add: IsIgnoredForGroups_def IsAppliedForGroups_def DefaultGroup_def)
  then show "WhenGroupsArgument_validate [runes ''admin''] X Y v st =
        (case Validate v Y st of Inl p \<Rightarrow> Inl p | Inr (e, st1) \<Rightarrow> unwrapViolationList e st1)"
    by (simp add: WhenGroupsArgument_validate_def)
qed

text \<open>
  Claim C4. Let the sub-arguments \<open>pre\<close>, run in order by \<^verbatim>\<open>Sequentially\<close>, yield no
  violation and leave the state \<open>st1\<close>, and let the next sub-argument \<open>a\<close>, validated in
  \<open>st1\<close>, return \<open>e\<close> and the state \<open>st2\<close>. If \<open>e\<close> is a list of at least one violation,
  the combinator returns that list; if \<open>e\<close> is a single violation, it returns a new list
  holding it; if \<open>e\<close> is neither, it returns \<open>e\<close> and no list. In each case the final
  state is the one \<open>a\<close> left (but for the new list element), whatever the sub-arguments
  \<open>post\<close> are: none of their closures has run.
\<close>

theorem Sequential_stops_at_first_violation:
  assumes pre: "SequentialArgument_validate pre False v st = Inr ((Some empty_list, None), st1)"
    and a: "Validate v [a] st1 = Inr (e, st2)"
  shows "(e = Some (ListError (Some m)) \<and> len m > 0 \<longrightarrow>
       SequentialArgument_validate (pre @ a # post) False v st = Inr ((Some m, None), st2)) \<and>
    (UnwrapViolation e = Some w \<longrightarrow>
       (\<exists>l s3. NewViolationList [w] (fst st2) = Inr (l, s3) \<and> len l = 1 \<and>
          SequentialArgument_validate (pre @ a # post) False v st = Inr ((Some l, None), (s3, snd st2)))) \<and>
    (e \<noteq> None \<and> UnwrapViolation e = None \<and> UnwrapViolationList e = None \<longrightarrow>
       SequentialArgument_validate (pre @ a # post) False v st = Inr ((None, e), st2))"
proof -
  from pre have "Sequential_loop v pre empty_list st = Inr ((Some empty_list, None), st1)"
    by (simp add: SequentialArgument_validate_def)
  then have c: "Sequential_loop v (pre @ a # post) empty_list st =
      Sequential_loop v (a # post) empty_list st1"
    by (rule Sequential_loop_continue) (simp add: empty_list_def)
  have w0: "well_formed (fst st2) empty_list []"
    by (simp add: well_formed_def linked_def empty_list_def)
  show ?thesis
  proof (intro conjI impI)
    assume h: "e = Some (ListError (Some m)) \<and> 0 < len m"
    then have "AppendFromError empty_list e (fst st2) = Inr (None, m, fst st2)"
      by (simp add: AppendFromError_def UnwrapViolation_def UnwrapViolationList_def Join_empty_list)
    with a h c show "SequentialArgument_validate (pre @ a # post) False v st = Inr ((Some m, None), st2)"
      by (simp add: SequentialArgument_validate_def)
  next
    assume h: "UnwrapViolation e = Some w"
    then obtain e' where e: "e = Some e'" by (cases e) (auto simp: UnwrapViolation_def)
    from Append_well_formed [OF w0, of "[w]"] obtain l s3 where
      n: "Append empty_list [w] (fst st2) = Inr (l, s3)" and "well_formed s3 l ([] @ news (fresh (fst st2)) (length [w]))"
      by blast
    then have l: "len l = 1" by (simp add: well_formed_def)
    from n h e have "AppendFromError empty_list e (fst st2) = Inr (None, l, s3)"
      by (simp add: AppendFromError_def)
    with a c l have "SequentialArgument_validate (pre @ a # post) False v st =
        Inr ((Some l, None), (s3, snd st2))"
      by (simp add: SequentialArgument_validate_def)
    with n l show "\<exists>l s3. NewViolationList [w] (fst st2) = Inr (l, s3) \<and> len l = 1 \<and>
          SequentialArgument_validate (pre @ a # post) False v st = Inr ((Some l, None), (s3, snd st2))"
      by (auto simp: NewViolationList_def)
  next
    assume h: "e \<noteq> None \<and> UnwrapViolation e = None \<and> UnwrapViolationList e = None"
    then have "AppendFromError empty_list e (fst st2) = Inr (e, empty_list, fst st2)"
      by (simp add: AppendFromError_def)
    with a h c show "SequentialArgument_validate (pre @ a # post) False v st = Inr ((None, e), st2)"
      by (simp add: SequentialArgument_validate_def)
  qed
qed

lemma AppendFromError_list:
  "AppendFromError acc (Some (ListError p)) s =
     (case Join acc p s of Inl q \<Rightarrow> Inl q | Inr (l', s') \<Rightarrow> Inr (None, l', s'))"
  by (simp add: AppendFromError_def UnwrapViolation_def UnwrapViolationList_def)

lemma all_fail_run:
  "all_fail v arguments acc rs st acc' rs' vss st' \<Longrightarrow> well_formed (fst st) acc rs \<Longrightarrow>
   AtLeastOneOf_loop v (arguments @ post) acc st = AtLeastOneOf_loop v post acc' st' \<and>
   well_formed (fst st') acc' rs' \<and>
   contents (fst st') rs' = contents (fst st) rs @ concat vss \<and>
   length vss = length arguments \<and> [] \<notin> set vss"
proof (induction rule: all_fail.induct)
  case (all_fail_Nil v acc rs st)
  then show ?case by simp
next
  case (all_fail_Cons v a st m st1 ms rs acc acc1 s2 rest acc' rs' vss st')
  from Join_well_formed [OF all_fail_Cons.hyps(5,2)] all_fail_Cons.hyps(4,7)
  have w: "well_formed s2 acc1 (rs @ ms)"
    and c: "contents s2 (rs @ ms) = contents (fst st1) rs @ contents (fst st1) ms"
    by auto
  from all_fail_Cons.IH w
  have ih: "AtLeastOneOf_loop v (rest @ post) acc1 (s2, snd st1) = AtLeastOneOf_loop v post acc' st'"
    "well_formed (fst st') acc' rs'"
    "contents (fst st') rs' = contents s2 (rs @ ms) @ concat vss"
    "length vss = length rest" "[] \<notin> set vss"
    by simp_all
  have "AtLeastOneOf_loop v ((a # rest) @ post) acc st =
      AtLeastOneOf_loop v (rest @ post) acc1 (s2, snd st1)"
    using all_fail_Cons.hyps(1,7) by (simp add: AppendFromError_list)
  moreover have "contents (fst st') rs' =
      contents (fst st) rs @ concat (contents (fst st1) ms # vss)"
    using ih(3) c all_fail_Cons.hyps(6) by simp
  moreover have "contents (fst st1) ms \<noteq> []"
    using all_fail_Cons.hyps(3) by (simp add: contents_def)
  ultimately show ?case using ih(1,2,4,5) by auto
qed

text \<open>
  Claim C5. If the sub-arguments \<open>pre\<close> all fail in turn and the next one, \<open>a\<close>, yields no
  violation, \<^verbatim>\<open>AtLeastOneOf\<close> returns an empty list and the state \<open>a\<close> left, whatever the
  sub-arguments \<open>post\<close> are. If all sub-arguments fail in turn, it returns a well-formed
  list whose violations are those of the first sub-argument, then those of the second, and
  so on.
\<close>

theorem AtLeastOneOf_first_success_or_all:
  "(all_fail v pre empty_list [] st acc rs vss st1 \<and> Validate v [a] st1 = Inr (None, st2) \<longrightarrow>
      AtLeastOneOfArgument_validate (pre @ a # post) False v st = Inr ((Some empty_list, None), st2)) \<and>
   (all_fail v arguments empty_list [] st acc rs vss st' \<longrightarrow>
      AtLeastOneOfArgument_validate arguments False v st = Inr ((Some acc, None), st') \<and>
      well_formed (fst st') acc rs \<and> contents (fst st') rs = concat vss \<and>
      length vss = length arguments \<and> [] \<notin> set vss)"
proof -
  have w: "well_formed (fst st) empty_list []"
    by (simp add: well_formed_def linked_def empty_list_def)
  have first: "AtLeastOneOfArgument_validate (pre @ a # post) False v st = Inr ((Some empty_list, None), st2)"
    if h: "all_fail v pre empty_list [] st acc rs vss st1 \<and> Validate v [a] st1 = Inr (None, st2)"
    using all_fail_run [OF conjunct1 [OF h] w, of "a # post"] h
    by (simp add: AtLeastOneOfArgument_validate_def)
  have all: "AtLeastOneOfArgument_validate arguments False v st = Inr ((Some acc, None), st') \<and>
      well_formed (fst st') acc rs \<and> contents (fst st') rs = concat vss \<and>
      length vss = length arguments \<and> [] \<notin> set vss"
    if h: "all_fail v arguments empty_list [] st acc rs vss st'"
    using all_fail_run [OF h w, of "[]"]
    by (simp add: AtLeastOneOfArgument_validate_def)
  from first all show ?thesis by blast
qed

lemmas engine_defs =
  Validate_def NewArgument_def ValidatorArgument_setUp_def addValidation_def reports_def breaks_def
  NewViolationList_def Append_def new_element_def set_next_def Join_def AsError_def
  unwrapViolationList_def AppendFromError_def UnwrapViolation_def UnwrapViolationList_def
  empty_list_def At_def With_def

theorem groups_select_branch_witness:
  "validator_groups admin_validator = [runes ''admin''] \<and>
   IsAppliedForGroups admin_validator [runes ''admin''] \<and>
   (\<exists>l s. WhenGroupsArgument_validate [runes ''admin'']
        [NewArgument (reports [sample_violation 5])] [NewArgument (reports [sample_violation 6])]
        admin_validator (sample_store, 0) = Inr ((Some l, None), (s, 1)) \<and>
      contents s [1] = [sample_violation 5]) \<and>
   validator_groups plain_validator = [] \<and>
   \<not> IsAppliedForGroups plain_validator [runes ''admin''] \<and>
   (\<exists>l s. WhenGroupsArgument_validate [runes ''admin'']
        [NewArgument (reports [sample_violation 5])] [NewArgument (reports [sample_violation 6])]
        plain_validator (sample_store, 0) = Inr ((Some l, None), (s, 1)) \<and>
      contents s [1] = [sample_violation 6])"
proof -
  let ?X = "[NewArgument (reports [sample_violation 5])]"
  let ?Y = "[NewArgument (reports [sample_violation 6])]"
  have g: "validator_groups admin_validator = [runes ''admin'']" "validator_groups plain_validator = []"
    by (simp_all add: admin_validator_def plain_validator_def)
  from groups_select_branch [of admin_validator "[runes ''admin'']" ?X ?Y "(sample_store, 0)"] g
  have a: "IsAppliedForGroups admin_validator [runes ''admin'']"
    "\<exists>l s. WhenGroupsArgument_validate [runes ''admin''] ?X ?Y admin_validator (sample_store, 0) =
        Inr ((Some l, None), (s, 1)) \<and> contents s [1] = [sample_violation 5]"
    by (simp_all add: engine_defs sample_store_def contents_def)
  from groups_select_branch [of plain_validator "[runes ''admin'']" ?X ?Y "(sample_store, 0)"] g
  have b: "\<not> IsAppliedForGroups plain_validator [runes ''admin'']"
    "\<exists>l s. WhenGroupsArgument_validate [runes ''admin''] ?X ?Y plain_validator (sample_store, 0) =
        Inr ((Some l, None), (s, 1)) \<and> contents s [1] = [sample_violation 6]"
    by (simp_all add: engine_defs sample_store_def contents_def DefaultGroup_def)
  from g a b show ?thesis by simp
qed

theorem Sequential_stops_at_first_violation_witness:
  "SequentialArgument_validate [NewArgument (reports [])] False plain_validator (sample_store, 0) =
     Inr ((Some empty_list, None), (sample_store, 1)) \<and>
   (\<exists>m s. Validate plain_validator [NewArgument (reports [sample_violation 5])] (sample_store, 1) =
        Inr (Some (ListError (Some m)), (s, 2)) \<and> len m > 0 \<and>
      SequentialArgument_validate
        ([NewArgument (reports [])] @ NewArgument (reports [sample_violation 5]) #
         [NewArgument (reports [sample_violation 6])])
        False plain_validator (sample_store, 0) = Inr ((Some m, None), (s, 2)) \<and>
      contents s [1] = [sample_violation 5]) \<and>
   Validate plain_validator [NewArgument (breaks (ViolationError (sample_violation 7)))] (sample_store, 1) =
     Inr (Some (ViolationError (sample_violation 7)), (sample_store, 2)) \<and>
   UnwrapViolation (Some (ViolationError (sample_violation 7))) = Some (sample_violation 7) \<and>
   (\<exists>l s. SequentialArgument_validate
        ([NewArgument (reports [])] @ NewArgument (breaks (ViolationError (sample_violation 7))) #
         [NewArgument (reports [sample_violation 6])])
        False plain_validator (sample_store, 0) = Inr ((Some l, None), (s, 2)) \<and> len l = 1) \<and>
   Validate plain_validator [NewArgument (breaks (PlainError [98]))] (sample_store, 1) =
     Inr (Some (PlainError [98]), (sample_store, 2)) \<and>
   UnwrapViolation (Some (PlainError [98])) = None \<and>
   UnwrapViolationList (Some (PlainError [98])) = None \<and>
   SequentialArgument_validate
     ([NewArgument (reports [])] @ NewArgument (breaks (PlainError [98])) #
      [NewArgument (reports [sample_violation 6])])
     False plain_validator (sample_store, 0) = Inr ((None, Some (PlainError [98])), (sample_store, 2))"
proof -
  let ?pre = "[NewArgument (reports [])]"
  let ?post = "[NewArgument (reports [sample_violation 6])]"
  let ?a1 = "NewArgument (reports [sample_violation 5])"
  let ?a2 = "NewArgument (breaks (ViolationError (sample_violation 7)))"
  let ?a3 = "NewArgument (breaks (PlainError [98]))"
  have pre: "SequentialArgument_validate ?pre False plain_validator (sample_store, 0) =
     Inr ((Some empty_list, None), (sample_store, 1))"
    by (simp add: SequentialArgument_validate_def engine_defs)
  obtain m s where a1: "Validate plain_validator [?a1] (sample_store, 1) =
      Inr (Some (ListError (Some m)), (s, 2))" and m: "len m > 0"
    and c: "contents s [1] = [sample_violation 5]"
    by (simp add: engine_defs sample_store_def contents_def)
  have a2: "Validate plain_validator [?a2] (sample_store, 1) =
      Inr (Some (ViolationError (sample_violation 7)), (sample_store, 2))"
    by (simp add: engine_defs)
  have a3: "Validate plain_validator [?a3] (sample_store, 1) =
      Inr (Some (PlainError [98]), (sample_store, 2))"
    by (simp add: engine_defs)
  have u: "UnwrapViolation (Some (ViolationError (sample_violation 7))) = Some (sample_violation 7)"
    "UnwrapViolation (Some (PlainError [98])) = None"
    "UnwrapViolationList (Some (PlainError [98])) = None"
    by (simp_all add: UnwrapViolation_def UnwrapViolationList_def)
  from Sequential_stops_at_first_violation [OF pre a1, where m = m and post = ?post] m
  have r1: "SequentialArgument_validate (?pre @ ?a1 # ?post) False plain_validator (sample_store, 0) =
      Inr ((Some m, None), (s, 2))"
    by simp
  from Sequential_stops_at_first_violation [OF pre a2, where w = "sample_violation 7" and post = ?post] u
  have r2: "\<exists>l s. SequentialArgument_validate (?pre @ ?a2 # ?post) False plain_validator (sample_store, 0) =
      Inr ((Some l, None), (s, 2)) \<and> len l = 1"
    by auto
  from Sequential_stops_at_first_violation [OF pre a3, where post = ?post] u
  have r3: "SequentialArgument_validate (?pre @ ?a3 # ?post) False plain_validator (sample_store, 0) =
      Inr ((None, Some (PlainError [98])), (sample_store, 2))"
    by simp
  from pre a1 m c r1 a2 a3 u r2 r3 show ?thesis by blast
qed

theorem AtLeastOneOf_first_success_or_all_witness:
  "(\<exists>acc rs vss st1 st2.
      all_fail plain_validator [NewArgument (reports [sample_violation 5])] empty_list []
        (sample_store, 0) acc rs vss st1 \<and>
      Validate plain_validator [NewArgument (reports [])] st1 = Inr (None, st2) \<and>
      AtLeastOneOfArgument_validate
        ([NewArgument (reports [sample_violation 5])] @ NewArgument (reports []) #
         [NewArgument (reports [sample_violation 6])])
        False plain_validator (sample_store, 0) = Inr ((Some empty_list, None), st2) \<and>
      snd st2 = 2) \<and>
   (\<exists>acc rs st'.
      all_fail plain_validator
        [NewArgument (reports [sample_violation 5]), NewArgument (reports [sample_violation 6])]
        empty_list [] (sample_store, 0) acc rs [[sample_violation 5], [sample_violation 6]] st' \<and>
      AtLeastOneOfArgument_validate
        [NewArgument (reports [sample_violation 5]), NewArgument (reports [sample_violation 6])]
        False plain_validator (sample_store, 0) = Inr ((Some acc, None), st') \<and>
      contents (fst st') rs = [sample_violation 5, sample_violation 6] \<and> snd st' = 2)"
proof -
  let ?v = plain_validator
  let ?F1 = "NewArgument (reports [sample_violation 5])"
  let ?F2 = "NewArgument (reports [sample_violation 6])"
  let ?OK = "NewArgument (reports [])"
  let ?m1 = "\<lparr>first = Some 1, lastElem = Some 1, len = 1\<rparr>"
  let ?m2 = "\<lparr>first = Some 2, lastElem = Some 2, len = 1\<rparr>"
  obtain s1 where v1: "Validate ?v [?F1] (sample_store, 0) = Inr (Some (ListError (Some ?m1)), (s1, 1))"
    and s1: "fresh s1 = 2" "cell s1 1 = \<lparr>nextElem = None, violation = sample_violation 5\<rparr>"
    by (simp add: engine_defs sample_store_def)
  have w1: "well_formed s1 ?m1 [1]" "well_formed s1 empty_list []"
    using s1 by (simp_all add: well_formed_def linked_def empty_list_def)
  have j1: "Join empty_list (Some ?m1) s1 = Inr (?m1, s1)"
    by (simp add: Join_empty_list)
  have c1: "contents s1 [1] = [sample_violation 5]" using s1 by (simp add: contents_def)
  have f1: "all_fail ?v [?F1] empty_list [] (sample_store, 0) ?m1 ([] @ [1])
      (contents (fst (s1, 1::nat)) [1] # []) (s1, 1)"
    by (rule all_fail_Cons [where m = ?m1 and acca = ?m1 and sa = s1])
      (use v1 w1 j1 in \<open>simp_all add: all_fail_Nil\<close>)
  have ok: "Validate ?v [?OK] (s1, 1) = Inr (None, (s1, 2))"
    by (simp add: engine_defs)
  from AtLeastOneOf_first_success_or_all [where v = ?v and pre = "[?F1]" and st = "(sample_store, 0)"
      and a = ?OK and ?st2.0 = "(s1, 2)" and post = "[?F2]", THEN conjunct1, rule_format, OF conjI, OF f1 ok]
  have r1: "AtLeastOneOfArgument_validate ([?F1] @ ?OK # [?F2]) False ?v (sample_store, 0) =
      Inr ((Some empty_list, None), (s1, 2))"
    .
  obtain s2 where v2: "Validate ?v [?F2] (s1, 1) = Inr (Some (ListError (Some ?m2)), (s2, 2))"
    and s2: "fresh s2 = 3" "cell s2 2 = \<lparr>nextElem = None, violation = sample_violation 6\<rparr>"
      "cell s2 1 = cell s1 1"
    using s1 by (simp add: engine_defs)
  have w2: "well_formed s2 ?m2 [2]" "well_formed s2 ?m1 [1]"
    using s1 s2 by (simp_all add: well_formed_def linked_def)
  have c2: "contents s2 [1] = contents s1 [1]" "contents s2 [2] = [sample_violation 6]"
    using s2 by (simp_all add: contents_def)
  obtain acc2 s3 where j2: "Join ?m1 (Some ?m2) s2 = Inr (acc2, s3)"
    by (simp add: Join_def)
  have f2: "all_fail ?v [?F2] ?m1 ([] @ [1]) (s1, 1) acc2 (([] @ [1]) @ [2])
      (contents (fst (s2, 2::nat)) [2] # []) (s3, 2)"
    by (rule all_fail_Cons [where m = ?m2 and acca = acc2 and sa = s3])
      (use v2 w2 c2 j2 in \<open>simp_all add: all_fail_Nil\<close>)
  have f12: "all_fail ?v [?F1, ?F2] empty_list [] (sample_store, 0) acc2 (([] @ [1]) @ [2])
      (contents (fst (s1, 1::nat)) [1] # contents (fst (s2, 2::nat)) [2] # []) (s3, 2)"
    by (rule all_fail_Cons [where m = ?m1 and acca = ?m1 and sa = s1])
      (use v1 w1 j1 f2 in \<open>simp_all\<close>)
  from AtLeastOneOf_first_success_or_all [where v = ?v and st = "(sample_store, 0)"
      and arguments = "[?F1, ?F2]", THEN conjunct2, rule_format, OF f12]
  have r2: "AtLeastOneOfArgument_validate [?F1, ?F2] False ?v (sample_store, 0) =
      Inr ((Some acc2, None), (s3, 2))"
    "contents s3 [1, 2] = [sample_violation 5, sample_violation 6]"
    using c1 c2 by simp_all
  have e1: "\<exists>acc rs vss st1 st2.
      all_fail ?v [?F1] empty_list [] (sample_store, 0) acc rs vss st1 \<and>
      Validate ?v [?OK] st1 = Inr (None, st2) \<and>
      AtLeastOneOfArgument_validate ([?F1] @ ?OK # [?F2]) False ?v (sample_store, 0) =
        Inr ((Some empty_list, None), st2) \<and> snd st2 = 2"
    using f1 ok r1 by (intro exI [of _ ?m1] exI [of _ "[] @ [1]"]
        exI [of _ "contents (fst (s1, 1::nat)) [1] # []"] exI [of _ "(s1, 1)"] exI [of _ "(s1, 2)"]) simp
  have e2: "\<exists>acc rs st'.
      all_fail ?v [?F1, ?F2] empty_list [] (sample_store, 0) acc rs
        [[sample_violation 5], [sample_violation 6]] st' \<and>
      AtLeastOneOfArgument_validate [?F1, ?F2] False ?v (sample_store, 0) = Inr ((Some acc, None), st') \<and>
      contents (fst st') rs = [sample_violation 5, sample_violation 6] \<and> snd st' = 2"
    using f12 [simplified] r2 c1 c2 by (intro exI [of _ acc2] exI [of _ "[1, 2]"] exI [of _ "(s3, 2)"]) simp
  from e1 e2 show ?thesis by blast
qed

subsection \<open>Reading back what String writes\<close>

declare digits.simps [simp del]

lemma String_loop_render:
  "String_loop u i (map Some elements) s = Inr (s @ render u (i > 0) elements)"
proof (induction elements arbitrary: i s)
  case Nil
  show ?case by simp
next
  case (Cons e es)
  show ?case by (simp add: Cons.IH piece_def Let_def)
qed

lemma values_to_With:
  "values_to (PropertyPath (With p0 es) (Some e)) =
     (case With p0 es of None \<Rightarrow> [] | Some q \<Rightarrow> values_to q) @ [Some e]"
  by (cases "With p0 es") simp_all

lemma With_snoc: "With p0 (es @ [e]) = Some (PropertyPath (With p0 es) (Some e))"
  by (simp add: With_def)

lemma values_With_None:
  "(case With None es of None \<Rightarrow> [] | Some q \<Rightarrow> values_to q) = map Some es"
proof (induction es rule: rev_induct)
  case Nil
  show ?case by (simp add: With_def)
next
  case (snoc e es)
  then show ?case by (simp add: With_snoc values_to_With)
qed

lemma Elements_With: "Elements (With None es) = map Some es"
proof (cases es rule: rev_cases)
  case Nil
  then show ?thesis by (simp add: With_def Elements_def)
next
  case (snoc es' e)
  have "values_to (PropertyPath (With None es') (Some e)) = map Some (es' @ [e])"
    using values_With_None [of es'] by (simp add: values_to_With)
  with snoc show ?thesis by (simp add: With_snoc Elements_def)
qed

lemma String_NewPropertyPath:
  "String u (NewPropertyPath es) = Inr (render u False es)"
  by (simp add: String_def NewPropertyPath_def Elements_With String_loop_render)

lemma Parse_loop_steps:
  "Parse_loop u p i (cs @ rest) =
     (case steps u p i cs of Inl e \<Rightarrow> Inl e | Inr (p', i') \<Rightarrow> Parse_loop u p' i' rest)"
  by (induction cs arbitrary: p i) (auto split: sum.splits)

lemma steps_append:
  "steps u p i (cs @ rest) =
     (case steps u p i cs of Inl e \<Rightarrow> Inl e | Inr (p', i') \<Rightarrow> steps u p' i' rest)"
  by (induction cs arbitrary: p i) (auto split: sum.splits)

lemma steps_digits:
  "state p = indexState \<or> state p = beginIndexState \<Longrightarrow> list_all (\<lambda>c. 48 \<le> c \<and> c \<le> 57) ds \<Longrightarrow>
   \<exists>p' i'. steps u p i ds = Inr (p', i') \<and>
     state p' = (if ds = [] then state p else indexState) \<and>
     buffer p' = buffer p @ ds \<and> path p' = path p \<and> isEscape p' = isEscape p"
proof (induction ds arbitrary: p i)
  case Nil
  then show ?case by simp
next
  case (Cons d ds)
  let ?q = "WriteRune (p\<lparr>index := i, state := indexState\<rparr>) d"
  from Cons.prems have h: "handleNext u (p\<lparr>index := i\<rparr>) d = Inr ?q"
    by (auto simp: handleNext_def handleDigit_def)
  have "state ?q = indexState \<or> state ?q = beginIndexState" by (simp add: WriteRune_def)
  from Cons.IH [OF this, of "i + RuneLen d"] Cons.prems(2) obtain p' i' where
    "steps u ?q (i + RuneLen d) ds = Inr (p', i')"
    "state p' = (if ds = [] then state ?q else indexState)"
    "buffer p' = buffer ?q @ ds" "path p' = path ?q" "isEscape p' = isEscape ?q"
    by auto
  with h show ?case by (auto simp: WriteRune_def)
qed

lemma steps_quoted_body:
  "state p = bracketedNameState \<Longrightarrow> \<not> isEscape p \<Longrightarrow>
   \<exists>p' i'. steps u p i (writePropertyName n) = Inr (p', i') \<and>
     state p' = bracketedNameState \<and> \<not> isEscape p' \<and>
     buffer p' = buffer p @ n \<and> path p' = path p"
proof (induction n arbitrary: p i)
  case Nil
  then show ?case by simp
next
  case (Cons c cs)
  let ?q = "(WriteRune (p\<lparr>index := i\<rparr>) c)"
  show ?case
  proof (cases "c = 39 \<or> c = 92")
    case True
    let ?e = "p\<lparr>index := i, isEscape := True\<rparr>"
    let ?q = "(WriteRune (?e\<lparr>index := i + RuneLen 92\<rparr>) c)\<lparr>isEscape := False\<rparr>"
    have h1: "handleNext u (p\<lparr>index := i\<rparr>) 92 = Inr ?e"
      using Cons.prems by (simp add: handleNext_def handleEscape_def)
    have h2: "handleNext u (?e\<lparr>index := i + RuneLen 92\<rparr>) c = Inr ?q"
      using Cons.prems True by (auto simp: handleNext_def handleEscape_def handleQuote_def)
    have "state ?q = bracketedNameState" "\<not> isEscape ?q"
      using Cons.prems by (simp_all add: WriteRune_def)
    from Cons.IH [OF this, of "i + RuneLen 92 + RuneLen c"] obtain p' i' where
      "steps u ?q (i + RuneLen 92 + RuneLen c) (writePropertyName cs) = Inr (p', i')"
      "state p' = bracketedNameState" "\<not> isEscape p'"
      "buffer p' = buffer ?q @ cs" "path p' = path ?q"
      by blast
    with h1 h2 True show ?thesis by (auto simp: WriteRune_def)
  next
    case False
    let ?q = "WriteRune (p\<lparr>index := i\<rparr>) c"
    have h: "handleNext u (p\<lparr>index := i\<rparr>) c = Inr ?q"
      using Cons.prems False
      by (simp add: handleNext_def handleOpenBracket_def handleCloseBracket_def handleDigit_def
          handlePoint_def handleOther_def)
    have "state ?q = bracketedNameState" "\<not> isEscape ?q"
      using Cons.prems by (simp_all add: WriteRune_def)
    from Cons.IH [OF this, of "i + RuneLen c"] obtain p' i' where
      "steps u ?q (i + RuneLen c) (writePropertyName cs) = Inr (p', i')"
      "state p' = bracketedNameState" "\<not> isEscape p'"
      "buffer p' = buffer ?q @ cs" "path p' = path ?q"
      by blast
    with h False show ?thesis by (auto simp: WriteRune_def)
  qed
qed

lemma first_char_dispatch:
  "isFirstIdentifierChar u c \<Longrightarrow> handleNext u p c = handleOther u p c"
  by (auto simp: isFirstIdentifierChar_def IsLetter_def handleNext_def split: if_splits)

lemma steps_identifier_body:
  "state p = identifierState \<Longrightarrow>
   list_all (\<lambda>c. isFirstIdentifierChar u c \<or> (48 \<le> c \<and> c \<le> 57)) cs \<Longrightarrow>
   \<exists>p' i'. steps u p i cs = Inr (p', i') \<and>
     state p' = identifierState \<and> isEscape p' = isEscape p \<and>
     buffer p' = buffer p @ cs \<and> path p' = path p"
proof (induction cs arbitrary: p i)
  case Nil
  then show ?case by simp
next
  case (Cons c cs)
  let ?q = "WriteRune (p\<lparr>index := i\<rparr>) c"
  have "\<exists>q. handleNext u (p\<lparr>index := i\<rparr>) c = Inr q \<and> state q = identifierState \<and>
      isEscape q = isEscape p \<and> buffer q = buffer p @ [c] \<and> path q = path p"
  proof (cases "48 \<le> c \<and> c \<le> 57")
    case True
    with Cons.prems show ?thesis
      by (auto simp: handleNext_def handleDigit_def WriteRune_def)
  next
    case False
    with Cons.prems have "isFirstIdentifierChar u c" by simp
    with Cons.prems show ?thesis
      by (simp add: first_char_dispatch handleOther_def WriteRune_def)
  qed
  then obtain q where q: "handleNext u (p\<lparr>index := i\<rparr>) c = Inr q" "state q = identifierState"
    "isEscape q = isEscape p" "buffer q = buffer p @ [c]" "path q = path p"
    by blast
  from Cons.IH [OF q(2), of "i + RuneLen c"] Cons.prems(2) obtain p' i' where
    "steps u q (i + RuneLen c) cs = Inr (p', i')"
    "state p' = identifierState" "isEscape p' = isEscape q"
    "buffer p' = buffer q @ cs" "path p' = path q"
    by auto
  with q show ?case by auto
qed

lemma decimal_value_snoc: "decimal_value (cs @ [c]) = decimal_value cs * 10 + (c - 48)"
  by (simp add: decimal_value_def)

lemma digits_decimal:
  "list_all (\<lambda>c. 48 \<le> c \<and> c \<le> 57) (digits n) \<and> digits n \<noteq> [] \<and> decimal_value (digits n) = n"
proof (induction n rule: digits.induct)
  case (1 n)
  show ?case
  proof (cases "n < 10")
    case True
    then have "digits n = [48 + n]" by (subst digits.simps) simp
    with True show ?thesis by (simp add: decimal_value_def)
  next
    case False
    then have d: "digits n = digits (n div 10) @ [48 + n mod 10]" by (subst digits.simps) simp
    from "1.IH" False have ih: "list_all (\<lambda>c. 48 \<le> c \<and> c \<le> 57) (digits (n div 10))"
      "decimal_value (digits (n div 10)) = n div 10"
      by simp_all
    have "n mod 10 < 10" by simp
    then have "48 + n mod 10 \<le> 57" by linarith
    with ih show ?thesis unfolding d by (simp add: decimal_value_snoc)
  qed
qed

lemma With_last:
  assumes "seen \<noteq> []" and "last seen = e"
  shows "Some (PropertyPath (With None (butlast seen)) (Some e)) = With None seen"
proof -
  from assms have "seen = butlast seen @ [e]" by (metis append_butlast_last_id)
  then have "With None seen = With None (butlast seen @ [e])" by simp
  then show ?thesis by (simp only: With_snoc)
qed

lemma open_bracket_from_boundary:
  assumes "boundary p seen"
  shows "\<exists>q. handleNext u (p\<lparr>index := i\<rparr>) 91 = Inr q \<and> state q = beginIndexState \<and>
     buffer q = [] \<and> path q = With None seen \<and> \<not> isEscape q"
proof (cases "seen = []")
  case True
  with assms show ?thesis
    by (simp add: boundary_def handleNext_def handleOpenBracket_def With_def)
next
  case False
  with assms show ?thesis
    by (auto simp: boundary_def handleNext_def handleOpenBracket_def addProperty_def WithProperty_def
        With_last)
qed

lemma point_from_boundary:
  assumes "boundary p seen" and "seen \<noteq> []"
  shows "\<exists>q. handleNext u (p\<lparr>index := i\<rparr>) 46 = Inr q \<and> state q = beginIdentifierState \<and>
     buffer q = [] \<and> path q = With None seen \<and> \<not> isEscape q"
  using assms
  by (auto simp: boundary_def handleNext_def handlePoint_def addProperty_def WithProperty_def With_last)

lemma piece_index:
  assumes b: "boundary p seen" and a: "0 \<le> a" "a \<le> int MaxInt"
  shows "\<exists>p' i'. steps u p i ([91] @ Itoa a @ [93]) = Inr (p', i') \<and> boundary p' (seen @ [ArrayIndex a])"
proof -
  let ?ds = "digits (nat a)"
  from a have it: "Itoa a = ?ds" by (simp add: Itoa_def)
  from open_bracket_from_boundary [OF b, of u i] obtain q where
    q: "handleNext u (p\<lparr>index := i\<rparr>) 91 = Inr q" "state q = beginIndexState"
       "buffer q = []" "path q = With None seen" "\<not> isEscape q"
    by blast
  have dd: "list_all (\<lambda>c. 48 \<le> c \<and> c \<le> 57) ?ds" "?ds \<noteq> []" "decimal_value ?ds = nat a"
    using digits_decimal [of "nat a"] by simp_all
  from steps_digits [of q ?ds u "i + RuneLen 91"] q(2) dd obtain p2 i2 where
    p2: "steps u q (i + RuneLen 91) ?ds = Inr (p2, i2)" "state p2 = indexState"
        "buffer p2 = ?ds" "path p2 = path q" "isEscape p2 = isEscape q"
    using q(3) by auto
  let ?r = "p2\<lparr>index := i2, path := WithIndex (path p2) (int (decimal_value ?ds)),
      pathIndex := pathIndex p2 + 1, buffer := [], state := closeBracketState\<rparr>"
  have dec: "is_decimal ?ds \<and> decimal_value ?ds \<le> MaxInt"
    using dd a by (simp add: is_decimal_def)
  have h: "handleNext u (p2\<lparr>index := i2\<rparr>) 93 = Inr ?r"
    using p2(2,3) dec by (simp add: handleNext_def handleCloseBracket_def addIndex_decimal)
  have "steps u p i ([91] @ Itoa a @ [93]) = Inr (?r, i2 + RuneLen 93)"
    using q(1) p2(1) h by (simp add: it steps_append)
  moreover have "boundary ?r (seen @ [ArrayIndex a])"
    using p2(4,5) q(4,5) dd(3) a by (simp add: boundary_def WithIndex_def With_snoc)
  ultimately show ?thesis by blast
qed

lemma piece_quoted:
  assumes b: "boundary p seen"
  shows "\<exists>p' i'. steps u p i ([91, 39] @ writePropertyName n @ [39, 93]) = Inr (p', i') \<and>
     boundary p' (seen @ [PropertyName n])"
proof -
  from open_bracket_from_boundary [OF b, of u i] obtain q where
    q: "handleNext u (p\<lparr>index := i\<rparr>) 91 = Inr q" "state q = beginIndexState"
       "buffer q = []" "path q = With None seen" "\<not> isEscape q"
    by blast
  let ?q1 = "q\<lparr>index := i + RuneLen 91, state := bracketedNameState\<rparr>"
  have h1: "handleNext u (q\<lparr>index := i + RuneLen 91\<rparr>) 39 = Inr ?q1"
    using q(2,5) by (simp add: handleNext_def handleQuote_def)
  from steps_quoted_body [of ?q1 u "i + RuneLen 91 + RuneLen 39" n] q(5) obtain p2 i2 where
    p2: "steps u ?q1 (i + RuneLen 91 + RuneLen 39) (writePropertyName n) = Inr (p2, i2)"
        "state p2 = bracketedNameState" "\<not> isEscape p2"
        "buffer p2 = buffer ?q1 @ n" "path p2 = path ?q1"
    by auto
  let ?q3 = "p2\<lparr>index := i2, state := endBracketedNameState\<rparr>"
  have h3: "handleNext u (p2\<lparr>index := i2\<rparr>) 39 = Inr ?q3"
    using p2(2,3) by (simp add: handleNext_def handleQuote_def)
  let ?r = "(addProperty (?q3\<lparr>index := i2 + RuneLen 39\<rparr>))\<lparr>state := closeBracketState\<rparr>"
  have h4: "handleNext u (?q3\<lparr>index := i2 + RuneLen 39\<rparr>) 93 = Inr ?r"
    by (simp add: handleNext_def handleCloseBracket_def)
  have "steps u p i ([91, 39] @ writePropertyName n @ [39, 93]) = Inr (?r, i2 + RuneLen 39 + RuneLen 93)"
    using q(1) h1 p2(1) h3 h4 by (simp add: steps_append)
  moreover have "boundary ?r (seen @ [PropertyName n])"
    using p2(3,4,5) q(3,4)
    by (simp add: boundary_def addProperty_def WithProperty_def With_snoc)
  ultimately show ?thesis by blast
qed

lemma piece_identifier:
  assumes b: "boundary p seen" and n: "isIdentifier u n"
    and t: "list_all (\<lambda>c. isFirstIdentifierChar u c \<or> (48 \<le> c \<and> c \<le> 57)) (tl n)"
  shows "\<exists>p' i'. steps u p i ((if seen \<noteq> [] then [46] else []) @ n) = Inr (p', i') \<and>
     boundary p' (seen @ [PropertyName n])"
proof -
  from n obtain c cs where nc: "n = c # cs" and c: "isFirstIdentifierChar u c"
    by (cases n) auto
  have "\<exists>q j. steps u p i (if seen \<noteq> [] then [46] else []) = Inr (q, j) \<and>
      (state q = initialState \<or> state q = beginIdentifierState) \<and>
      buffer q = [] \<and> path q = With None seen \<and> \<not> isEscape q"
  proof (cases "seen = []")
    case True
    with b show ?thesis by (simp add: boundary_def With_def)
  next
    case False
    from point_from_boundary [OF b False, of u i] False show ?thesis by auto
  qed
  then obtain q j where q: "steps u p i (if seen \<noteq> [] then [46] else []) = Inr (q, j)"
    "state q = initialState \<or> state q = beginIdentifierState"
    "buffer q = []" "path q = With None seen" "\<not> isEscape q"
    by blast
  let ?q1 = "WriteRune (q\<lparr>index := j, state := identifierState\<rparr>) c"
  have h1: "handleNext u (q\<lparr>index := j\<rparr>) c = Inr ?q1"
    using q(2) c by (auto simp: first_char_dispatch handleOther_def)
  have "state ?q1 = identifierState" by (simp add: WriteRune_def)
  from steps_identifier_body [OF this, of u cs "j + RuneLen c"] t nc obtain p' i' where
    p': "steps u ?q1 (j + RuneLen c) cs = Inr (p', i')" "state p' = identifierState"
        "isEscape p' = isEscape ?q1" "buffer p' = buffer ?q1 @ cs" "path p' = path ?q1"
    by auto
  have "steps u p i ((if seen \<noteq> [] then [46] else []) @ n) = Inr (p', i')"
    using q(1) h1 p'(1) nc by (simp add: steps_append)
  moreover have "boundary p' (seen @ [PropertyName n])"
    using p'(2,3,4,5) q(3,4,5) nc by (simp add: boundary_def WriteRune_def)
  ultimately show ?thesis by blast
qed

lemma piece_boundary:
  assumes b: "boundary p seen" and e: "parsed_back u e"
  shows "\<exists>p' i'. steps u p i (piece u (seen \<noteq> []) e) = Inr (p', i') \<and> boundary p' (seen @ [e])"
proof (cases e)
  case (ArrayIndex a)
  with e piece_index [OF b, of a u i] show ?thesis
    by (simp add: parsed_back_def piece_def)
next
  case (PropertyName n)
  show ?thesis
  proof (cases "isIdentifier u n")
    case True
    with e PropertyName piece_identifier [OF b True, of i] show ?thesis
      by (simp add: parsed_back_def piece_def)
  next
    case False
    with PropertyName piece_quoted [OF b, of u i n] show ?thesis
      by (simp add: piece_def)
  qed
qed

lemma render_boundary:
  "boundary p seen \<Longrightarrow> list_all (parsed_back u) es \<Longrightarrow>
   \<exists>p' i'. steps u p i (render u (seen \<noteq> []) es) = Inr (p', i') \<and> boundary p' (seen @ es)"
proof (induction es arbitrary: p i seen)
  case Nil
  then show ?case by simp
next
  case (Cons e es)
  from Cons.prems have e: "parsed_back u e" and es: "list_all (parsed_back u) es" by simp_all
  from piece_boundary [OF Cons.prems(1) e, of i] obtain q j where
    q: "steps u p i (piece u (seen \<noteq> []) e) = Inr (q, j)" "boundary q (seen @ [e])"
    by blast
  from Cons.IH [OF q(2) es, of j] obtain p' i' where
    "steps u q j (render u True es) = Inr (p', i')" "boundary p' ((seen @ [e]) @ es)"
    by auto
  with q(1) show ?case by (simp add: steps_append)
qed

lemma finish_boundary:
  assumes "boundary p seen" and "seen \<noteq> []"
  shows "finish p = Inr (With None seen)"
  using assms by (auto simp: boundary_def finish_def WithProperty_def With_last)

lemma piece_not_empty: "piece u later e \<noteq> []"
  by (cases e) (auto simp: piece_def Let_def)

text \<open>
  The round trip that does hold: a path built from elements that are \<open>parsed_back\<close> is
  rendered without panic, the text is accepted by the parser, and the path parsed has the
  same elements. Only an identifier with a digit outside \<^verbatim>\<open>0-9\<close> is left out.
\<close>

theorem round_trip_of_parsed_back_elements:
  assumes "list_all (parsed_back u) es"
  shows "\<exists>s p. String u (NewPropertyPath es) = Inr s \<and> Parse u s = Inr p \<and> Elements p = map Some es"
proof (cases es)
  case Nil
  then show ?thesis
    by (simp add: String_NewPropertyPath Parse_def Elements_def)
next
  case (Cons e es')
  have b: "boundary new_pathParser []" by (simp add: boundary_def new_pathParser_def)
  from render_boundary [OF b assms, of 0] obtain p' i' where
    s: "steps u new_pathParser 0 (render u False es) = Inr (p', i')" and b': "boundary p' es"
    by auto
  have ne: "render u False es \<noteq> []" using Cons piece_not_empty by simp
  have "Parse u (render u False es) = Parse_loop u new_pathParser 0 (render u False es @ [])"
    using ne by (simp add: Parse_def)
  also have "\<dots> = finish p'"
    unfolding Parse_loop_steps using s by simp
  also have "\<dots> = Inr (With None es)"
    using b' Cons by (intro finish_boundary) simp_all
  finally show ?thesis by (simp add: String_NewPropertyPath Elements_With)
qed

end
